theory Spec2Isabelle
  imports Main
begin

section \<open>Strings, bytes and the output device\<close>

text \<open>
  A Go \<^verbatim>\<open>string\<close> and a \<^verbatim>\<open>[]byte\<close> are byte sequences; they are modelled as
  \<^typ>\<open>string\<close>, a list of 8-bit characters. Go's \<^verbatim>\<open>int\<close> (64 bit) is modelled as
  \<^typ>\<open>int\<close>: the values are line numbers, byte offsets and frame counters, which stay
  far below \<open>2^63\<close>.
\<close>

definition LF :: char where
  "LF = CHR 0x0A"

definition CR :: char where
  "CR = CHR 0x0D"

definition ESC :: char where
  "ESC = CHR 0x1B"

text \<open>Decimal formatting, as \<^verbatim>\<open>fmt\<close>'s verb \<^verbatim>\<open>%d\<close> prints an integer.\<close>

definition digit_char :: "nat \<Rightarrow> char" where
  "digit_char d = char_of (48 + d)"

fun nat_decimal :: "nat \<Rightarrow> string" where
  "nat_decimal n = (if n < 10 then [digit_char n]
                    else nat_decimal (n div 10) @ [digit_char (n mod 10)])"

declare nat_decimal.simps [simp del]

definition fmt_d :: "int \<Rightarrow> string" where
  "fmt_d i = (if i < 0 then CHR ''-'' # nat_decimal (nat (- i)) else nat_decimal (nat i))"

text \<open>
  The primitives of the output device (package termenv, outside the repository), with the
  byte sequences the specification lists for them: \<^verbatim>\<open>CSI n A\<close>, \<^verbatim>\<open>CSI n B\<close>,
  \<^verbatim>\<open>CSI n D\<close>, \<^verbatim>\<open>CSI 2 K\<close>, \<^verbatim>\<open>CSI r ; c H\<close>.
\<close>

definition CSI :: string where
  "CSI = [ESC, CHR ''['']"

definition ClearLine :: string where
  "ClearLine = CSI @ ''2K''"

definition CursorUp :: "int \<Rightarrow> string" where
  "CursorUp n = CSI @ fmt_d n @ ''A''"

definition CursorDown :: "int \<Rightarrow> string" where
  "CursorDown n = CSI @ fmt_d n @ ''B''"

definition CursorBack :: "int \<Rightarrow> string" where
  "CursorBack n = CSI @ fmt_d n @ ''D''"

definition MoveCursor :: "int \<Rightarrow> int \<Rightarrow> string" where
  "MoveCursor row col = CSI @ fmt_d row @ '';'' @ fmt_d col @ ''H''"

text \<open>\<^verbatim>\<open>strings.Split(s, "\n")\<close>: the substrings between the line feeds; one more than
  there are line feeds, so the empty string gives one empty line.\<close>

fun strings_Split :: "string \<Rightarrow> string list" where
  "strings_Split [] = [[]]"
| "strings_Split (c # cs) =
     (if c = LF then [] # strings_Split cs
      else (case strings_Split cs of
              [] \<Rightarrow> [[c]]
            | l # ls \<Rightarrow> (c # l) # ls))"

section \<open>The standard renderer\<close>

text \<open>
  The fields of \<^verbatim>\<open>standardRenderer\<close> that \<^verbatim>\<open>newRenderer\<close>, \<^verbatim>\<open>write\<close>,
  \<^verbatim>\<open>flush\<close> and \<^verbatim>\<open>moveRenderingHead\<close> read or write. The mutex, the ticker and
  the channels are left out. \<open>out\<close> holds every byte written to the terminal so far;
  \<open>framerate\<close> is a \<^verbatim>\<open>time.Duration\<close>, a number of nanoseconds; \<open>ignoreLines\<close> is the
  key set of the Go map.
\<close>

record standardRenderer =
  out :: string
  buf :: string
  queuedMessageLines :: "string list"
  framerate :: int
  lastRender :: string
  lastRenderLines :: "string list"
  forceRepaint :: bool
  linesRendered :: int
  useANSICompressor :: bool
  cursorHidden :: bool
  altScreenActive :: bool
  bpActive :: bool
  width :: int
  height :: int
  ignoreLines :: "int set"
  skipLines :: "bool list"
  renderingHead :: int

definition defaultFPS :: int where
  "defaultFPS = 60"

definition maxFPS :: int where
  "maxFPS = 120"

definition time_Second :: int where
  "time_Second = 1000000000"

text \<open>\<^verbatim>\<open>newRenderer\<close>: the frame rate is clamped, every other field has Go's zero value.
  Both operands of the division are positive, so Go's truncating division is \<open>div\<close>.\<close>

definition newRenderer :: "bool \<Rightarrow> int \<Rightarrow> standardRenderer" where
  "newRenderer useCompressor fps0 =
     (let fps = (if fps0 < 1 then defaultFPS else if fps0 > maxFPS then maxFPS else fps0)
      in \<lparr> out = [], buf = [], queuedMessageLines = [],
           framerate = time_Second div fps,
           lastRender = [], lastRenderLines = [], forceRepaint = False,
           linesRendered = 0, useANSICompressor = useCompressor,
           cursorHidden = False, altScreenActive = False, bpActive = False,
           width = 0, height = 0, ignoreLines = {}, skipLines = [],
           renderingHead = 0 \<rparr>)"

text \<open>\<^verbatim>\<open>write\<close> (named \<open>renderer_write\<close>, as \<open>write\<close> is an Isabelle command): the
  pending buffer is replaced; the empty string is replaced by one space.\<close>

definition renderer_write :: "standardRenderer \<Rightarrow> string \<Rightarrow> standardRenderer" where
  "renderer_write r s = r\<lparr>buf := (if s = [] then '' '' else s)\<rparr>"

text \<open>The loop \<^verbatim>\<open>for i := ...; i < delta; i++ { out.WriteString("\n") }\<close>.\<close>

function newline_loop :: "int \<Rightarrow> int \<Rightarrow> string" where
  "newline_loop i delta = (if i < delta then LF # newline_loop (i + 1) delta else [])"
  by pat_completeness auto
termination
  by (relation "measure (\<lambda>(i, delta). nat (delta - i))") auto

declare newline_loop.simps [simp del]

text \<open>\<^verbatim>\<open>moveRenderingHead\<close>; \<open>ob\<close> is the output buffer of the running flush.\<close>

definition moveRenderingHead ::
  "standardRenderer \<Rightarrow> int \<Rightarrow> string \<Rightarrow> standardRenderer \<times> string" where
  "moveRenderingHead r toLine ob =
     (let delta = toLine - renderingHead r in
      if delta = 0 then (r, ob)
      else if delta = 1 then (r\<lparr>renderingHead := toLine\<rparr>, ob @ [LF])
      else if delta > 0 then
        (if toLine > linesRendered r
         then (r\<lparr>renderingHead := toLine\<rparr>,
               ob @ CursorDown (linesRendered r - renderingHead r)
                  @ newline_loop (linesRendered r - renderingHead r) delta)
         else (r\<lparr>renderingHead := toLine\<rparr>, ob @ CursorDown delta))
      else (r\<lparr>renderingHead := toLine\<rparr>, ob @ CursorUp (- delta)))"

text \<open>A run-time panic of the Go program: the call does not return.\<close>

datatype panic = IndexOutOfRange | SliceBoundsOutOfRange

text \<open>\<^verbatim>\<open>ensureSkiplinesSize\<close>: the scratch vector is grown to \<open>skipCap\<close> entries when it
  is shorter (by reallocation or by reslicing, which differ in capacity only), and every
  entry is set to false.\<close>

definition ensureSkiplinesSize :: "standardRenderer \<Rightarrow> int \<Rightarrow> standardRenderer" where
  "ensureSkiplinesSize r skipCap =
     r\<lparr>skipLines :=
         replicate (if int (length (skipLines r)) < skipCap then nat skipCap
                    else length (skipLines r)) False\<rparr>"

text \<open>The loop over the keys of \<open>ignoreLines\<close>: \<^verbatim>\<open>if i < skipCap { r.skipLines[i] = true }\<close>.
  The order of the keys does not matter: a key that is out of range for the index panics,
  whenever it is reached; otherwise every key below \<open>skipCap\<close> is marked.\<close>

definition mark_ignored :: "standardRenderer \<Rightarrow> int \<Rightarrow> panic + standardRenderer" where
  "mark_ignored r skipCap =
     (if \<exists>i \<in> ignoreLines r. i < skipCap \<and> (i < 0 \<or> int (length (skipLines r)) \<le> i)
      then Inl IndexOutOfRange
      else Inr (r\<lparr>skipLines :=
                   map (\<lambda>j. skipLines r ! j \<or> (int j \<in> ignoreLines r \<and> int j < skipCap))
                       [0 ..< length (skipLines r)]\<rparr>))"

text \<open>The loop \<^verbatim>\<open>for i := 0; i < r.linesRendered; i++\<close> that compares the new lines with
  the lines of the last render. The index \<open>i\<close> is below the length of \<open>skipLines\<close>, which
  \<open>ensureSkiplinesSize\<close> made at least \<open>linesRendered\<close>.\<close>

function diff_lines :: "standardRenderer \<Rightarrow> string list \<Rightarrow> int \<Rightarrow> standardRenderer" where
  "diff_lines r newLines i =
     (if i < linesRendered r then
        (if (int (length newLines) > i \<and> int (length (lastRenderLines r)) > i)
            \<and> newLines ! nat i = lastRenderLines r ! nat i
         then diff_lines (r\<lparr>skipLines := (skipLines r)[nat i := True]\<rparr>) newLines (i + 1)
         else if i \<in> ignoreLines r
         then diff_lines (r\<lparr>skipLines := (skipLines r)[nat i := True]\<rparr>) newLines (i + 1)
         else diff_lines r newLines (i + 1))
      else r)"
  by pat_completeness auto
termination
  by (relation "measure (\<lambda>(r, newLines, i). nat (linesRendered r - i))") auto

declare diff_lines.simps [simp del]

text \<open>The paint loop of the incremental flush, \<^verbatim>\<open>for ; i < numLinesThisFlush; i++\<close>.
  \<open>trunc\<close> stands for \<^verbatim>\<open>truncate.String\<close> of package reflow, which is outside the
  repository.\<close>

function paint_diff ::
  "(string \<Rightarrow> nat \<Rightarrow> string) \<Rightarrow> string list \<Rightarrow> int \<Rightarrow> int \<Rightarrow> standardRenderer \<Rightarrow> string
     \<Rightarrow> standardRenderer \<times> string" where
  "paint_diff trunc newLines num i r ob =
     (if i < num then
        (if skipLines r ! nat i then paint_diff trunc newLines num (i + 1) r ob
         else
           (let line = newLines ! nat i;
                line' = (if width r > 0 then trunc line (nat (width r)) else line);
                mv = moveRenderingHead r i ob;
                ob2 = (if i < linesRendered (fst mv) then snd mv @ ClearLine else snd mv);
                ob3 = ob2 @ line';
                ob4 = (if i < num - 1 then ob3 @ [CR] else ob3)
            in paint_diff trunc newLines num (i + 1) (fst mv) ob4))
      else (r, ob))"
  by pat_completeness auto
termination
  by (relation "measure (\<lambda>(trunc, newLines, num, i, r, ob). nat (num - i))") auto

declare paint_diff.simps [simp del]

text \<open>The loop that clears the lines left over from the last render,
  \<^verbatim>\<open>for ; i < r.linesRendered; i++\<close>.\<close>

function clear_rest :: "int \<Rightarrow> standardRenderer \<Rightarrow> string \<Rightarrow> standardRenderer \<times> string" where
  "clear_rest i r ob =
     (if i < linesRendered r then
        (if skipLines r ! nat i then clear_rest (i + 1) r ob
         else (let mv = moveRenderingHead r i ob
               in clear_rest (i + 1) (fst mv) (snd mv @ ClearLine)))
      else (r, ob))"
  by pat_completeness auto
termination
  by (relation "measure (\<lambda>(i, r, ob). nat (linesRendered r - i))")
     (auto simp: moveRenderingHead_def Let_def)

declare clear_rest.simps [simp del]

text \<open>The incremental branch of \<^verbatim>\<open>flush\<close>. After the paint loop \<open>i\<close> equals
  \<open>numLinesThisFlush\<close>.\<close>

definition flush_diff ::
  "(string \<Rightarrow> nat \<Rightarrow> string) \<Rightarrow> standardRenderer \<Rightarrow> string list
     \<Rightarrow> panic + (standardRenderer \<times> string)" where
  "flush_diff trunc r newLines =
     (let num = int (length newLines);
          skipCap = (if num > linesRendered r then num else linesRendered r);
          r1 = ensureSkiplinesSize r skipCap
      in case mark_ignored r1 skipCap of
           Inl e \<Rightarrow> Inl e
         | Inr r2 \<Rightarrow>
             (let r3 = diff_lines r2 newLines 0;
                  p = paint_diff trunc newLines num 0 r3 []
              in if num < linesRendered (fst p)
                 then (let c = clear_rest num (fst p) (snd p @ [CR])
                       in Inr (moveRenderingHead (fst c) (num - 1) (snd c)))
                 else Inr p))"

text \<open>The two loops of the full branch: the queued message lines, then all lines of the
  frame.\<close>

fun dump_queued :: "string list \<Rightarrow> string \<Rightarrow> string" where
  "dump_queued [] ob = ob"
| "dump_queued (line # rest) ob = dump_queued rest (ob @ ClearLine @ line @ [CR, LF])"

fun paint_all ::
  "(string \<Rightarrow> nat \<Rightarrow> string) \<Rightarrow> standardRenderer \<Rightarrow> int \<Rightarrow> int \<Rightarrow> string list \<Rightarrow> string
     \<Rightarrow> string" where
  "paint_all trunc r num i [] ob = ob"
| "paint_all trunc r num i (line # rest) ob =
     (let line' = (if width r > 0 then trunc line (nat (width r)) else line);
          ob1 = ob @ ClearLine @ line';
          ob2 = (if i < num - 1 then ob1 @ [CR, LF] else ob1)
      in paint_all trunc r num (i + 1) rest ob2)"

definition flush_full ::
  "(string \<Rightarrow> nat \<Rightarrow> string) \<Rightarrow> standardRenderer \<Rightarrow> string list
     \<Rightarrow> standardRenderer \<times> string" where
  "flush_full trunc r newLines =
     (let num = int (length newLines);
          mv = (if renderingHead r \<noteq> 0 then moveRenderingHead r 0 [] else (r, []));
          ob2 = dump_queued (queuedMessageLines (fst mv)) (snd mv);
          r2 = (fst mv)\<lparr>queuedMessageLines := []\<rparr>;
          ob3 = paint_all trunc r2 num 0 newLines ob2
      in (r2\<lparr>renderingHead := num - 1\<rparr>, ob3))"

text \<open>The height clipping of \<^verbatim>\<open>flush\<close>:
  \<^verbatim>\<open>newLines = newLines[len(newLines)-r.height:]\<close>.\<close>

definition clip_height :: "standardRenderer \<Rightarrow> string list \<Rightarrow> string list" where
  "clip_height r newLines =
     (if height r > 0 \<and> int (length newLines) > height r
      then drop (nat (int (length newLines) - height r)) newLines
      else newLines)"

text \<open>The early exit of \<^verbatim>\<open>flush\<close>.\<close>

definition forceFullFlush :: "standardRenderer \<Rightarrow> bool" where
  "forceFullFlush r =
     ((length (queuedMessageLines r) > 0 \<and> \<not> altScreenActive r) \<or> forceRepaint r)"

definition nothing_to_do :: "standardRenderer \<Rightarrow> bool" where
  "nothing_to_do r = (\<not> forceFullFlush r \<and> (length (buf r) = 0 \<or> buf r = lastRender r))"

text \<open>\<^verbatim>\<open>flush\<close>. The result is the renderer after the call, or the panic that ended it.\<close>

definition flush ::
  "(string \<Rightarrow> nat \<Rightarrow> string) \<Rightarrow> standardRenderer \<Rightarrow> panic + standardRenderer" where
  "flush trunc r0 =
     (let force = forceFullFlush r0;
          r = r0\<lparr>forceRepaint := False\<rparr>;
          bufString = buf r
      in if nothing_to_do r0 then Inr r
         else
           (let newLines = clip_height r (strings_Split (buf r));
                numLinesThisFlush = int (length newLines)
            in case (if force then Inr (flush_full trunc r newLines)
                     else flush_diff trunc r newLines) of
                 Inl e \<Rightarrow> Inl e
               | Inr (r1, ob) \<Rightarrow>
                   (let ob' = (if altScreenActive r1
                               then ob @ MoveCursor (renderingHead r1 + 1) 0
                               else ob @ CursorBack (width r1))
                    in Inr (r1\<lparr>out := out r1 @ ob',
                                linesRendered := numLinesThisFlush,
                                lastRenderLines := newLines,
                                lastRender := bufString,
                                buf := []\<rparr>))))"

subsection \<open>The bytes of a flush, as the specification describes them\<close>

text \<open>The definitions of this subsection follow the words of the specification (section 4.1,
  ``Diff Engine and Flush''), not the code: they give the bytes that a flush is to append to
  the output as a function of the renderer before the flush and of the lines to show. They use
  the escape sequences of the output device and nothing of the functions above; the section on
  the properties of the renderer proves that \<open>flush\<close> writes these bytes.\<close>

text \<open>Cursor motion, ``\<^verbatim>\<open>moveHead(target)\<close>'': nothing for \<open>delta = 0\<close>; one line feed for
  \<open>delta = 1\<close>; for a target below the rendered area \<^verbatim>\<open>CUD(linesRendered - renderingHead)\<close>
  and then \<open>target - linesRendered\<close> line feeds; \<^verbatim>\<open>CUD(delta)\<close> for any other positive
  \<open>delta\<close>; \<^verbatim>\<open>CUU(-delta)\<close> for a negative one. \<open>lr\<close> is \<open>linesRendered\<close> and \<open>head\<close> is
  \<open>renderingHead\<close>.\<close>

definition move_bytes :: "int \<Rightarrow> int \<Rightarrow> int \<Rightarrow> string" where
  "move_bytes lr head target =
     (let delta = target - head in
      if delta = 0 then []
      else if delta = 1 then [LF]
      else if delta > 0 \<and> target > lr
        then CursorDown (lr - head) @ replicate (nat (target - lr)) LF
      else if delta > 0 then CursorDown delta
      else CursorUp (- delta))"

text \<open>A line as it is written: ``truncated to \<open>width\<close> via ANSI-aware truncation when
  \<open>width > 0\<close>''.\<close>

definition shown_line :: "(string \<Rightarrow> nat \<Rightarrow> string) \<Rightarrow> int \<Rightarrow> string \<Rightarrow> string" where
  "shown_line trunc w l = (if w > 0 then trunc l (nat w) else l)"

text \<open>The rows that the incremental flush leaves alone: the rows in \<open>ignoreLines\<close>, and the
  rows of the last render whose line has not changed.\<close>

definition skipped :: "standardRenderer \<Rightarrow> string list \<Rightarrow> nat \<Rightarrow> bool" where
  "skipped r new i =
     (int i \<in> ignoreLines r
      \<or> (int i < linesRendered r \<and> i < length new \<and> i < length (lastRenderLines r)
         \<and> new ! i = lastRenderLines r ! i))"

text \<open>Step 2 of the incremental flush, over the rows that are not skipped, from top to bottom:
  move the head to the row, erase the row (\<^verbatim>\<open>EL\<close>) if it is a row of the last render, write
  the line, and a carriage return unless it is the last line of the new frame.\<close>

fun paint_rows ::
  "(string \<Rightarrow> nat \<Rightarrow> string) \<Rightarrow> int \<Rightarrow> int \<Rightarrow> string list \<Rightarrow> int \<Rightarrow> nat list \<Rightarrow> string" where
  "paint_rows trunc lr w new head [] = []"
| "paint_rows trunc lr w new head (i # rows) =
     move_bytes lr head (int i) @ (if int i < lr then ClearLine else [])
       @ shown_line trunc w (new ! i) @ (if i + 1 < length new then [CR] else [])
       @ paint_rows trunc lr w new (int i) rows"

text \<open>Step 3 of the incremental flush, over the rows left from the last render that are not
  skipped: move the head to the row and erase it.\<close>

fun clear_rows :: "int \<Rightarrow> int \<Rightarrow> nat list \<Rightarrow> string" where
  "clear_rows lr head [] = []"
| "clear_rows lr head (i # rows) = move_bytes lr head (int i) @ ClearLine @ clear_rows lr (int i) rows"

text \<open>Where the head is after it has visited the rows.\<close>

definition head_after :: "int \<Rightarrow> nat list \<Rightarrow> int" where
  "head_after head rows = (if rows = [] then head else int (last rows))"

text \<open>Step 3 of the full flush, \<open>n\<close> being the number of lines of the frame and \<open>i\<close> the
  row of the first line of the list: \<^verbatim>\<open>EL\<close>, the line, then carriage return and line feed
  unless it is the last line.\<close>

fun paint_frame ::
  "(string \<Rightarrow> nat \<Rightarrow> string) \<Rightarrow> int \<Rightarrow> nat \<Rightarrow> nat \<Rightarrow> string list \<Rightarrow> string" where
  "paint_frame trunc w n i [] = []"
| "paint_frame trunc w n i (l # ls) =
     ClearLine @ shown_line trunc w l @ (if i + 1 < n then [CR, LF] else [])
       @ paint_frame trunc w n (i + 1) ls"

text \<open>The rows painted and the rows cleared by the incremental flush.\<close>

definition diff_rows :: "standardRenderer \<Rightarrow> string list \<Rightarrow> nat list" where
  "diff_rows r new = filter (\<lambda>i. \<not> skipped r new i) [0 ..< length new]"

definition stale_rows :: "standardRenderer \<Rightarrow> string list \<Rightarrow> nat list" where
  "stale_rows r new = filter (\<lambda>i. \<not> skipped r new i) [length new ..< nat (linesRendered r)]"

text \<open>The incremental flush: the painted rows; then, when the new frame is shorter than the
  last render, a carriage return, the cleared rows and the move of the head to the last row
  of the new frame. \<open>diff_head\<close> is the row of the head after it.\<close>

definition diff_output ::
  "(string \<Rightarrow> nat \<Rightarrow> string) \<Rightarrow> standardRenderer \<Rightarrow> string list \<Rightarrow> string" where
  "diff_output trunc r new =
     paint_rows trunc (linesRendered r) (width r) new (renderingHead r) (diff_rows r new)
     @ (if int (length new) < linesRendered r
        then [CR]
          @ clear_rows (linesRendered r) (head_after (renderingHead r) (diff_rows r new))
              (stale_rows r new)
          @ move_bytes (linesRendered r)
              (head_after (head_after (renderingHead r) (diff_rows r new)) (stale_rows r new))
              (int (length new) - 1)
        else [])"

definition diff_head :: "standardRenderer \<Rightarrow> string list \<Rightarrow> int" where
  "diff_head r new =
     (if int (length new) < linesRendered r then int (length new) - 1
      else head_after (renderingHead r) (diff_rows r new))"

text \<open>The full flush: the head moves to row 0; every queued line is written after an \<^verbatim>\<open>EL\<close>
  and followed by carriage return and line feed; then the lines of the frame. The head is left
  on the last row of the frame.\<close>

definition full_output ::
  "(string \<Rightarrow> nat \<Rightarrow> string) \<Rightarrow> standardRenderer \<Rightarrow> string list \<Rightarrow> string" where
  "full_output trunc r new =
     move_bytes (linesRendered r) (renderingHead r) 0
     @ concat (map (\<lambda>q. ClearLine @ q @ [CR, LF]) (queuedMessageLines r))
     @ paint_frame trunc (width r) (length new) 0 new"

text \<open>All bytes of a flush that renders: those of the full or of the incremental flush, then
  the resting cursor, which is the absolute move to \<open>(renderingHead + 1, 0)\<close> on the
  alternate screen and \<^verbatim>\<open>CUB(width)\<close> otherwise.\<close>

definition flush_output ::
  "(string \<Rightarrow> nat \<Rightarrow> string) \<Rightarrow> standardRenderer \<Rightarrow> string list \<Rightarrow> string" where
  "flush_output trunc r new =
     (if forceFullFlush r
      then full_output trunc r new
        @ (if altScreenActive r then MoveCursor (int (length new) - 1 + 1) 0
           else CursorBack (width r))
      else diff_output trunc r new
        @ (if altScreenActive r then MoveCursor (diff_head r new + 1) 0
           else CursorBack (width r)))"

section \<open>The cursor-position reply parser\<close>

record CursorPositionMsg =
  X :: int
  Y :: int

text \<open>
  \<^verbatim>\<open>strconv.Atoi\<close> (Go's standard library, on a platform whose \<^verbatim>\<open>int\<close> has 64 bits): an
  optional sign \<open>+\<close> or \<open>-\<close>, then one or more decimal digits. The result is the value and
  whether the error is \<^verbatim>\<open>nil\<close>. The digits are read from the left by \<^verbatim>\<open>ParseUint\<close>, which
  stops at the first byte that decides the outcome: a byte that is not a digit gives a syntax
  error and the value 0; digits whose value leaves 64 bits give a range error and the largest
  unsigned value, whatever follows them. A range error, and a value outside the signed range,
  give the nearest bound of \<^verbatim>\<open>int64\<close>.
\<close>

definition is_digit :: "char \<Rightarrow> bool" where
  "is_digit c = (48 \<le> (of_char c :: int) \<and> (of_char c :: int) \<le> 57)"

datatype num_error = ErrSyntax | ErrRange

text \<open>The loop of \<^verbatim>\<open>ParseUint\<close> for base 10 and 64 bits; \<open>n\<close> is the value of the digits read
  so far. \<^verbatim>\<open>n >= cutoff\<close>, with \<open>cutoff = maxUint64 / 10 + 1\<close>, is the test that \<open>n * 10\<close>
  overflows, and the second test is that adding the digit does.\<close>

fun ParseUint :: "int \<Rightarrow> string \<Rightarrow> int \<times> num_error option" where
  "ParseUint n [] = (n, None)"
| "ParseUint n (c # cs) =
     (if \<not> is_digit c then (0, Some ErrSyntax)
      else if n \<ge> (2 ^ 64 - 1) div 10 + 1 then (2 ^ 64 - 1, Some ErrRange)
      else if n * 10 + (of_char c - 48) > 2 ^ 64 - 1 then (2 ^ 64 - 1, Some ErrRange)
      else ParseUint (n * 10 + (of_char c - 48)) cs)"

definition Atoi :: "string \<Rightarrow> int \<times> bool" where
  "Atoi s =
     (if s = [] then (0, False)
      else
        (let neg = (hd s = CHR ''-'');
             body = (if hd s = CHR ''-'' \<or> hd s = CHR ''+'' then tl s else s);
             un = (if body = [] then (0, Some ErrSyntax) else ParseUint 0 body)
         in if snd un = Some ErrSyntax then (0, False)
            else if \<not> neg \<and> fst un \<ge> 2 ^ 63 then (2 ^ 63 - 1, False)
            else if neg \<and> fst un > 2 ^ 63 then (- (2 ^ 63), False)
            else (if neg then - fst un else fst un, True)))"

text \<open>A slice expression \<^verbatim>\<open>b[lo:hi]\<close> on a byte slice; it panics unless
  \<open>0 \<le> lo \<le> hi \<le> cap(b)\<close>. The parser slices below the length only, so the capacity
  is taken to be the length.\<close>

definition slice :: "string \<Rightarrow> int \<Rightarrow> int \<Rightarrow> panic + string" where
  "slice b lo hi =
     (if 0 \<le> lo \<and> lo \<le> hi \<and> hi \<le> int (length b)
      then Inr (take (nat (hi - lo)) (drop (nat lo) b))
      else Inl SliceBoundsOutOfRange)"

text \<open>\<^verbatim>\<open>bytes.SplitN(buf, []byte{';'}, 2)\<close>: the buffer cut at its first semicolon, or the
  buffer alone when it has none.\<close>

definition bytes_SplitN_2 :: "string \<Rightarrow> string list" where
  "bytes_SplitN_2 b =
     (if CHR '';'' \<in> set b
      then [takeWhile (\<lambda>c. c \<noteq> CHR '';'') b, tl (dropWhile (\<lambda>c. c \<noteq> CHR '';'') b)]
      else [b])"

text \<open>The scanning loop of \<^verbatim>\<open>parseCursorPositionEvent\<close>. It ends by the early return on a
  second semicolon, or with \<open>endIdx\<close> and \<open>sepIdx\<close>; \<open>endIdx\<close> keeps its zero value when no
  \<open>R\<close> is met.\<close>

datatype scan_result = MultipleSemicolons | Scanned int int

fun scan_buf :: "nat \<Rightarrow> string \<Rightarrow> int \<Rightarrow> scan_result" where
  "scan_buf i [] sepIdx = Scanned 0 sepIdx"
| "scan_buf i (c # cs) sepIdx =
     (if c = CHR '';'' then
        (if sepIdx \<noteq> - 1 then MultipleSemicolons else scan_buf (i + 1) cs (int i))
      else if c = CHR ''R'' then Scanned (int i) sepIdx
      else scan_buf (i + 1) cs sepIdx)"

definition parseCursorPositionEvent :: "string \<Rightarrow> panic + (CursorPositionMsg \<times> int)" where
  "parseCursorPositionEvent b =
     (let ev = \<lparr>X = 0, Y = 0\<rparr> in
      case scan_buf 0 b (- 1) of
        MultipleSemicolons \<Rightarrow> Inr (ev, - 1)
      | Scanned endIdx sepIdx \<Rightarrow>
          if endIdx = 0 \<or> sepIdx = - 1 then Inr (ev, - 1)
          else if length (bytes_SplitN_2 b) \<noteq> 2 then Inr (ev, - 1)
          else
            (case slice b 2 sepIdx of
               Inl e \<Rightarrow> Inl e
             | Inr ys \<Rightarrow>
                 (let ev1 = ev\<lparr>Y := fst (Atoi ys)\<rparr> in
                  if \<not> snd (Atoi ys) then Inr (ev1, - 1)
                  else
                    (case slice b (sepIdx + 1) endIdx of
                       Inl e \<Rightarrow> Inl e
                     | Inr xs \<Rightarrow>
                         (let ev2 = ev1\<lparr>X := fst (Atoi xs)\<rparr> in
                          if \<not> snd (Atoi xs) then Inr (ev2, - 1)
                          else Inr (ev2, endIdx + 1))))))"

text \<open>
  The reply as the specification describes it: \<open>reply_end\<close> is the offset of the first \<open>R\<close>,
  \<open>reply_seps\<close> the number of semicolons before it, \<open>reply_sep\<close> the offset of the first
  semicolon, \<open>reply_y\<close> the bytes from offset 2 to the semicolon and \<open>reply_x\<close> the bytes
  between the semicolon and the \<open>R\<close>. \<open>decimal\<close> is a non-negative decimal integer: a
  non-empty run of digits.
\<close>

definition reply_end :: "string \<Rightarrow> nat" where
  "reply_end b = length (takeWhile (\<lambda>c. c \<noteq> CHR ''R'') b)"

definition reply_seps :: "string \<Rightarrow> nat" where
  "reply_seps b = length (filter (\<lambda>c. c = CHR '';'') (takeWhile (\<lambda>c. c \<noteq> CHR ''R'') b))"

definition reply_sep :: "string \<Rightarrow> nat" where
  "reply_sep b = length (takeWhile (\<lambda>c. c \<noteq> CHR '';'') b)"

definition reply_y :: "string \<Rightarrow> string" where
  "reply_y b = take (reply_sep b - 2) (drop 2 b)"

definition reply_x :: "string \<Rightarrow> string" where
  "reply_x b = take (reply_end b - (reply_sep b + 1)) (drop (reply_sep b + 1) b)"

definition decimal :: "string \<Rightarrow> bool" where
  "decimal s = (s \<noteq> [] \<and> list_all is_digit s)"

definition malformed_reply :: "string \<Rightarrow> bool" where
  "malformed_reply b =
     (CHR ''R'' \<notin> set b \<or> reply_seps b = 0 \<or> reply_seps b \<ge> 2
      \<or> \<not> snd (Atoi (reply_y b)) \<or> \<not> snd (Atoi (reply_x b)))"

section \<open>The clickable registry\<close>

subsection \<open>Runes\<close>

text \<open>
  A \<^verbatim>\<open>rune\<close> is a 32-bit integer. \<^verbatim>\<open>for i, r := range frame\<close> decodes the string as
  UTF-8: \<open>i\<close> is the byte offset of the sequence and \<open>r\<close> its code point; a byte that
  starts no well-formed sequence gives \<open>U+FFFD\<close> and is passed over alone (the Go language
  specification, with the well-formed sequences of package \<^verbatim>\<open>unicode/utf8\<close>).
  \<^verbatim>\<open>WriteRune\<close> appends the UTF-8 encoding of a rune, which is that of \<open>U+FFFD\<close> for a
  surrogate or a value outside Unicode.
\<close>

type_synonym rune = int

definition RuneError :: rune where
  "RuneError = 0xFFFD"

definition cont_byte :: "int \<Rightarrow> bool" where
  "cont_byte b = (0x80 \<le> b \<and> b \<le> 0xBF)"

definition DecodeRuneInString :: "string \<Rightarrow> rune \<times> nat" where
  "DecodeRuneInString s =
     (case s of
        [] \<Rightarrow> (RuneError, 0)
      | c0 # cs \<Rightarrow>
          (let b0 = (of_char c0 :: int) in
           if b0 < 0x80 then (b0, 1)
           else if 0xC2 \<le> b0 \<and> b0 \<le> 0xDF then
             (case cs of
                c1 # _ \<Rightarrow>
                  (let b1 = (of_char c1 :: int) in
                   if cont_byte b1 then ((b0 - 0xC0) * 64 + (b1 - 0x80), 2)
                   else (RuneError, 1))
              | _ \<Rightarrow> (RuneError, 1))
           else if 0xE0 \<le> b0 \<and> b0 \<le> 0xEF then
             (case cs of
                c1 # c2 # _ \<Rightarrow>
                  (let b1 = (of_char c1 :: int); b2 = (of_char c2 :: int) in
                   if (if b0 = 0xE0 then 0xA0 else 0x80) \<le> b1
                      \<and> b1 \<le> (if b0 = 0xED then 0x9F else 0xBF) \<and> cont_byte b2
                   then ((b0 - 0xE0) * 4096 + (b1 - 0x80) * 64 + (b2 - 0x80), 3)
                   else (RuneError, 1))
              | _ \<Rightarrow> (RuneError, 1))
           else if 0xF0 \<le> b0 \<and> b0 \<le> 0xF4 then
             (case cs of
                c1 # c2 # c3 # _ \<Rightarrow>
                  (let b1 = (of_char c1 :: int); b2 = (of_char c2 :: int);
                       b3 = (of_char c3 :: int) in
                   if (if b0 = 0xF0 then 0x90 else 0x80) \<le> b1
                      \<and> b1 \<le> (if b0 = 0xF4 then 0x8F else 0xBF)
                      \<and> cont_byte b2 \<and> cont_byte b3
                   then ((b0 - 0xF0) * 262144 + (b1 - 0x80) * 4096 + (b2 - 0x80) * 64
                           + (b3 - 0x80), 4)
                   else (RuneError, 1))
              | _ \<Rightarrow> (RuneError, 1))
           else (RuneError, 1)))"

function range_string :: "nat \<Rightarrow> string \<Rightarrow> (nat \<times> rune) list" where
  "range_string i s =
     (if s = [] then []
      else (i, fst (DecodeRuneInString s))
           # range_string (i + snd (DecodeRuneInString s)) (drop (snd (DecodeRuneInString s)) s))"
  by pat_completeness auto
termination
  by (relation "measure (\<lambda>(i, s). length s)")
     (auto simp: DecodeRuneInString_def Let_def split: list.splits)

declare range_string.simps [simp del]

definition utf8_encode :: "rune \<Rightarrow> string" where
  "utf8_encode r0 =
     (if 0 \<le> r0 \<and> r0 \<le> 0x7F then [char_of r0]
      else if 0 \<le> r0 \<and> r0 \<le> 0x7FF then [char_of (0xC0 + r0 div 64), char_of (0x80 + r0 mod 64)]
      else
        (let r = (if r0 < 0 \<or> r0 > 0x10FFFF \<or> (0xD800 \<le> r0 \<and> r0 \<le> 0xDFFF)
                  then RuneError else r0)
         in if r \<le> 0xFFFF
            then [char_of (0xE0 + r div 4096), char_of (0x80 + (r div 64) mod 64),
                  char_of (0x80 + r mod 64)]
            else [char_of (0xF0 + r div 262144), char_of (0x80 + (r div 4096) mod 64),
                  char_of (0x80 + (r div 64) mod 64), char_of (0x80 + r mod 64)]))"

text \<open>\<^verbatim>\<open>utf8.ValidString\<close>: no byte of the string is passed over as ill-formed.\<close>

function ValidString :: "string \<Rightarrow> bool" where
  "ValidString s =
     (if s = [] then True
      else if DecodeRuneInString s = (RuneError, 1) then False
      else ValidString (drop (snd (DecodeRuneInString s)) s))"
  by pat_completeness auto
termination
  by (relation "measure length")
     (auto simp: DecodeRuneInString_def Let_def split: list.splits)

declare ValidString.simps [simp del]

subsection \<open>The registry\<close>

text \<open>
  The fields \<open>x\<close> and \<open>y\<close> of \<^verbatim>\<open>cell\<close> are named \<open>cell_x\<close> and \<open>cell_y\<close>, and the field
  \<open>end\<close> of \<^verbatim>\<open>clickableBounds\<close> is named \<open>end_cell\<close> (\<open>end\<close> is an Isabelle keyword). The
  payload, an \<^verbatim>\<open>interface{}\<close>, is an optional value of any type, \<open>None\<close> being
  \<^verbatim>\<open>nil\<close>. The two registries are distinct Go maps at all times (they start distinct,
  are swapped or replaced by a new map), so each is modelled by its own value.
\<close>

record cell =
  cell_x :: int
  cell_y :: int

record clickableBounds =
  start :: cell
  end_cell :: cell
  sequencePosition :: int

record 'd clickable =
  data :: "'d option"
  bounds :: clickableBounds
  generation :: int

record 'd clickableState =
  currentGeneration :: int
  idCounter :: int
  stableKeyMap :: "string \<rightharpoonup> int"
  currentRegistered :: "int \<rightharpoonup> 'd clickable"
  nextRegistered :: "int \<rightharpoonup> 'd clickable"

definition zero_cell :: cell where
  "zero_cell = \<lparr>cell_x = 0, cell_y = 0\<rparr>"

definition zero_bounds :: clickableBounds where
  "zero_bounds = \<lparr>start = zero_cell, end_cell = zero_cell, sequencePosition = 0\<rparr>"

definition zero_clickable :: "'d clickable" where
  "zero_clickable = \<lparr>data = None, bounds = zero_bounds, generation = 0\<rparr>"

definition containsPoint :: "clickableBounds \<Rightarrow> cell \<Rightarrow> bool" where
  "containsPoint cb p =
     ((cell_y (start cb) < cell_y p
         \<or> (cell_y (start cb) = cell_y p \<and> cell_x (start cb) \<le> cell_x p))
      \<and> (cell_y (end_cell cb) > cell_y p
         \<or> (cell_y (end_cell cb) = cell_y p \<and> cell_x (end_cell cb) \<ge> cell_x p)))"

definition makeClickableState :: "'d clickableState" where
  "makeClickableState =
     \<lparr>currentGeneration = 0, idCounter = 0, stableKeyMap = Map.empty,
      currentRegistered = Map.empty, nextRegistered = Map.empty\<rparr>"

definition stableId :: "'d clickableState \<Rightarrow> string \<Rightarrow> 'd clickableState \<times> int" where
  "stableId cr key =
     (case stableKeyMap cr key of
        Some existingId \<Rightarrow> (cr, existingId)
      | None \<Rightarrow>
          (cr\<lparr>idCounter := idCounter cr + 1,
              stableKeyMap := (stableKeyMap cr)(key \<mapsto> idCounter cr)\<rparr>,
           idCounter cr))"

text \<open>The loop \<^verbatim>\<open>for i := 0; i < id; i++ { builder.WriteRune(U+FFFA) }\<close>.\<close>

function write_id :: "int \<Rightarrow> int \<Rightarrow> string" where
  "write_id i cid = (if i < cid then utf8_encode 0xFFFA @ write_id (i + 1) cid else [])"
  by pat_completeness auto
termination
  by (relation "measure (\<lambda>(i, cid). nat (cid - i))") auto

declare write_id.simps [simp del]

definition registerAndWrap ::
  "'d clickableState \<Rightarrow> string \<Rightarrow> string \<Rightarrow> 'd option \<Rightarrow> 'd clickableState \<times> string" where
  "registerAndWrap cr wrapped key payload =
     (let cr1 = fst (stableId cr key);
          cid = snd (stableId cr key);
          cr2 = cr1\<lparr>nextRegistered :=
                      (nextRegistered cr1)
                        (cid \<mapsto> \<lparr>data = payload, bounds = zero_bounds,
                                 generation = currentGeneration cr1 + 1\<rparr>)\<rparr>
      in (cr2, utf8_encode 0xFFF9 @ wrapped @ write_id 0 cid @ utf8_encode 0xFFFB))"

text \<open>
  The loop of \<^verbatim>\<open>stripClickableSequencesFromFrame\<close> over the decoded runes, with the local
  variables as arguments. \<open>rw\<close> stands for \<^verbatim>\<open>runewidth.RuneWidth\<close>, which is outside the
  repository. The result is the registry and, unless the function gave up and returns the
  frame itself, the stripped text.
\<close>

fun strip_loop ::
  "(rune \<Rightarrow> int) \<Rightarrow> (nat \<times> rune) list \<Rightarrow> 'd clickableState \<Rightarrow> cell \<Rightarrow> cell
     \<Rightarrow> clickableBounds list \<Rightarrow> int \<Rightarrow> string \<Rightarrow> 'd clickableState \<times> string option" where
  "strip_loop rw [] cr prev current parsingClickableStack currentParsingId sb =
     (if currentParsingId \<noteq> - 1 then (cr\<lparr>currentRegistered := Map.empty\<rparr>, None)
      else (cr, Some sb))"
| "strip_loop rw ((i, r) # rest) cr prev current parsingClickableStack currentParsingId sb =
     (if r = 0xFFF9 then
        strip_loop rw rest cr prev current
          (parsingClickableStack
             @ [\<lparr>start = current, end_cell = zero_cell, sequencePosition = int i\<rparr>])
          0 sb
      else if r = 0xFFFA then
        (if currentParsingId = - 1 then (cr\<lparr>nextRegistered := Map.empty\<rparr>, None)
         else strip_loop rw rest cr prev current parsingClickableStack
                (currentParsingId + 1) sb)
      else if r = 0xFFFB then
        (let last = int (length parsingClickableStack) - 1 in
         if last < 0 then (cr\<lparr>nextRegistered := Map.empty\<rparr>, None)
         else
           (case nextRegistered cr currentParsingId of
              None \<Rightarrow> (cr\<lparr>nextRegistered := Map.empty\<rparr>, None)
            | Some existing \<Rightarrow>
                if generation existing = currentGeneration cr + 1 then
                  strip_loop rw rest
                    (cr\<lparr>nextRegistered :=
                          (nextRegistered cr)
                            (currentParsingId \<mapsto>
                               existing\<lparr>bounds :=
                                  (parsingClickableStack ! nat last)\<lparr>end_cell := prev\<rparr>\<rparr>)\<rparr>)
                    prev current (take (nat last) parsingClickableStack)
                    (if last = 0 then - 1 else 0) sb
                else (cr\<lparr>nextRegistered := Map.empty\<rparr>, None)))
      else
        (if currentParsingId > 0 then (cr\<lparr>currentRegistered := Map.empty\<rparr>, None)
         else
           strip_loop rw rest cr current
             (if r = 13 then current\<lparr>cell_x := 0\<rparr>
              else if r = 10 then current\<lparr>cell_x := 0, cell_y := cell_y current + 1\<rparr>
              else current\<lparr>cell_x := cell_x current + rw r\<rparr>)
             parsingClickableStack currentParsingId (sb @ utf8_encode r)))"

definition stripClickableSequencesFromFrame ::
  "(rune \<Rightarrow> int) \<Rightarrow> 'd clickableState \<Rightarrow> string \<Rightarrow> 'd clickableState \<times> string" where
  "stripClickableSequencesFromFrame rw cr frame =
     (case strip_loop rw (range_string 0 frame) cr zero_cell zero_cell [] (- 1) [] of
        (cr', None) \<Rightarrow> (cr', frame)
      | (cr', Some stripped) \<Rightarrow> (cr', stripped))"

definition swapDoubleBuffer :: "'d clickableState \<Rightarrow> 'd clickableState" where
  "swapDoubleBuffer cr =
     cr\<lparr>currentRegistered := nextRegistered cr, nextRegistered := currentRegistered cr,
        currentGeneration := currentGeneration cr + 1\<rparr>"

text \<open>
  \<^verbatim>\<open>getClicked\<close>. Go visits the keys of a map in an order it does not specify; \<open>order\<close> is
  the order of one run of the loop, a list of the keys of \<open>currentRegistered\<close>.
\<close>

fun getClicked_loop ::
  "'d clickableState \<Rightarrow> cell \<Rightarrow> 'd clickable \<Rightarrow> int list \<Rightarrow> 'd clickable" where
  "getClicked_loop cs p bestClicked [] = bestClicked"
| "getClicked_loop cs p bestClicked (k # ks) =
     (case currentRegistered cs k of
        None \<Rightarrow> getClicked_loop cs p bestClicked ks
      | Some c \<Rightarrow>
          if generation c = currentGeneration cs \<and> containsPoint (bounds c) p
             \<and> sequencePosition (bounds c) \<ge> sequencePosition (bounds bestClicked)
          then getClicked_loop cs p c ks
          else getClicked_loop cs p bestClicked ks)"

definition getClicked :: "int list \<Rightarrow> 'd clickableState \<Rightarrow> int \<Rightarrow> int \<Rightarrow> 'd option" where
  "getClicked order cs x y =
     data (getClicked_loop cs \<lparr>cell_x = x, cell_y = y\<rparr> zero_clickable order)"

text \<open>A stand-in for \<^verbatim>\<open>runewidth.RuneWidth\<close> on printable ASCII, where every rune is one
  column wide. It is used to run the registry on concrete frames only.\<close>

definition width_ascii :: "rune \<Rightarrow> int" where
  "width_ascii r = 1"

subsection \<open>Hits, and the frames and runs used below\<close>

text \<open>\<open>hit cs p c\<close>: \<open>c\<close> is an entry of \<open>currentRegistered\<close> that passes the first two
  tests of the loop of \<^verbatim>\<open>getClicked\<close> at the cell \<open>p\<close>: it is of the current generation and
  \<^verbatim>\<open>containsPoint\<close> holds. \<open>cell_le\<close> is the reading order of cells, by row and then by
  column.\<close>

definition hit :: "'d clickableState \<Rightarrow> cell \<Rightarrow> 'd clickable \<Rightarrow> bool" where
  "hit cs p c =
     ((\<exists>k. currentRegistered cs k = Some c) \<and> generation c = currentGeneration cs
      \<and> containsPoint (bounds c) p)"

definition cell_le :: "cell \<Rightarrow> cell \<Rightarrow> bool" where
  "cell_le a b = (cell_y a < cell_y b \<or> (cell_y a = cell_y b \<and> cell_x a \<le> cell_x b))"

text \<open>\<open>runes s\<close> are the runes that \<^verbatim>\<open>range\<close> finds in \<open>s\<close>. \<open>ids_ok\<close>: the ids handed
  out so far and the id counter are not negative, as in every registry made by
  \<open>makeClickableState\<close> and changed by the operations of the registry only.\<close>

definition runes :: "string \<Rightarrow> rune list" where
  "runes s = map snd (range_string 0 s)"

definition ids_ok :: "'d clickableState \<Rightarrow> bool" where
  "ids_ok cs = (0 \<le> idCounter cs \<and> (\<forall>k v. stableKeyMap cs k = Some v \<longrightarrow> 0 \<le> v))"

text \<open>\<open>positions_ok\<close>: no registered entry has a negative sequence position. Sequence
  positions are byte offsets into a frame, or zero before the frame is stripped.\<close>

definition positions_ok :: "'d clickableState \<Rightarrow> bool" where
  "positions_ok cs =
     ((\<forall>k c. currentRegistered cs k = Some c \<longrightarrow> 0 \<le> sequencePosition (bounds c))
      \<and> (\<forall>k c. nextRegistered cs k = Some c \<longrightarrow> 0 \<le> sequencePosition (bounds c)))"

text \<open>A frame with two clickables, the second drawn over the first after a carriage
  return, registered, stripped and swapped in.\<close>

definition overdraw_a :: "string clickableState \<times> string" where
  "overdraw_a = registerAndWrap makeClickableState ''ab'' ''link-1'' (Some ''DATA-1'')"

definition overdraw_b :: "string clickableState \<times> string" where
  "overdraw_b = registerAndWrap (fst overdraw_a) ''c'' ''link-2'' (Some ''DATA-2'')"

definition overdraw_frame :: string where
  "overdraw_frame = snd overdraw_a @ [CR] @ snd overdraw_b"

definition overdraw_run :: "string clickableState" where
  "overdraw_run =
     swapDoubleBuffer
       (fst (stripClickableSequencesFromFrame width_ascii (fst overdraw_b) overdraw_frame))"

text \<open>Containment as the specification words it: the bounds contain a cell when the cell is
  between the start cell and the end cell in reading order, both included. \<open>clickable_at\<close>:
  an entry of \<open>currentRegistered\<close>, of the current generation, whose bounds contain the cell
  \<open>(x, y)\<close>.\<close>

definition contains_cell :: "clickableBounds \<Rightarrow> int \<Rightarrow> int \<Rightarrow> bool" where
  "contains_cell b x y =
     (cell_le (start b) \<lparr>cell_x = x, cell_y = y\<rparr> \<and> cell_le \<lparr>cell_x = x, cell_y = y\<rparr> (end_cell b))"

definition clickable_at :: "'d clickableState \<Rightarrow> int \<Rightarrow> int \<Rightarrow> 'd clickable \<Rightarrow> bool" where
  "clickable_at cs x y c =
     ((\<exists>k. currentRegistered cs k = Some c) \<and> generation c = currentGeneration cs
      \<and> contains_cell (bounds c) x y)"

text \<open>A text without any of the three marker runes.\<close>

definition marker_free :: "string \<Rightarrow> bool" where
  "marker_free t =
     (0xFFF9 \<notin> set (runes t) \<and> 0xFFFA \<notin> set (runes t) \<and> 0xFFFB \<notin> set (runes t))"

text \<open>The nested clickables of the repository's test \<^verbatim>\<open>TestNestedClickableSingleLine\<close>:
  the inner one is registered first and wrapped into the text of the outer one; the frame is
  stripped and swapped in.\<close>

definition nested_inner :: "string clickableState \<times> string" where
  "nested_inner = registerAndWrap makeClickableState ''here'' ''inner'' (Some ''inner-data'')"

definition nested_outer :: "string clickableState \<times> string" where
  "nested_outer =
     registerAndWrap (fst nested_inner) (''here or '' @ snd nested_inner) ''outer''
       (Some ''outer-data'')"

definition nested_frame :: string where
  "nested_frame = ''Click me '' @ snd nested_outer @ '' please''"

definition nested_run :: "string clickableState" where
  "nested_run =
     swapDoubleBuffer
       (fst (stripClickableSequencesFromFrame width_ascii (fst nested_outer) nested_frame))"

text \<open>One frame made of one clickable: registered and wrapped, stripped, swapped in. Three
  frames in a row, each with a clickable of its own.\<close>

definition frame_step ::
  "string clickableState \<Rightarrow> string \<Rightarrow> string \<Rightarrow> string \<Rightarrow> string clickableState" where
  "frame_step cs text key payload =
     (let w = registerAndWrap cs text key (Some payload)
      in swapDoubleBuffer (fst (stripClickableSequencesFromFrame width_ascii (fst w) (snd w))))"

definition stale_run :: "string clickableState" where
  "stale_run =
     frame_step (frame_step (frame_step makeClickableState ''a'' ''link-1'' ''DATA-1'')
                   ''b'' ''link-2'' ''DATA-2'')
       ''c'' ''link-3'' ''DATA-3''"

text \<open>The six malformed frames of the specification and of the repository's tests.\<close>

definition unterminated_frame :: string where
  "unterminated_frame = ''Hello!'' @ utf8_encode 0xFFF9 @ ''sequence'' @ utf8_encode 0xFFFA"

definition text_after_id_frame :: string where
  "text_after_id_frame =
     ''Hello!'' @ utf8_encode 0xFFF9 @ ''sequence'' @ utf8_encode 0xFFFA @ ''abc''"

definition lone_start_frame :: string where
  "lone_start_frame = ''Hello!'' @ utf8_encode 0xFFF9 @ ''sequence''"

definition orphan_id_frame :: string where
  "orphan_id_frame = ''Hello!sequence'' @ utf8_encode 0xFFFA @ utf8_encode 0xFFFB"

definition unregistered_id_frame :: string where
  "unregistered_id_frame =
     ''Hello!'' @ utf8_encode 0xFFF9 @ ''sequence'' @ utf8_encode 0xFFFA @ utf8_encode 0xFFFA
       @ utf8_encode 0xFFFA @ utf8_encode 0xFFFA @ utf8_encode 0xFFFB"

definition orphan_end_frame :: string where
  "orphan_end_frame = ''Hello!sequence'' @ utf8_encode 0xFFFB"

text \<open>The fields that the loops of \<open>flush\<close> leave alone: all but \<open>skipLines\<close> and
  \<open>renderingHead\<close>.\<close>

definition keeps :: "standardRenderer \<Rightarrow> standardRenderer \<Rightarrow> bool" where
  "keeps r r' =
     (out r' = out r \<and> buf r' = buf r \<and> queuedMessageLines r' = queuedMessageLines r
      \<and> lastRender r' = lastRender r \<and> lastRenderLines r' = lastRenderLines r
      \<and> forceRepaint r' = forceRepaint r \<and> linesRendered r' = linesRendered r
      \<and> altScreenActive r' = altScreenActive r \<and> width r' = width r
      \<and> height r' = height r \<and> ignoreLines r' = ignoreLines r)"

text \<open>The renderer with another pending buffer.\<close>

definition with_buf :: "string \<Rightarrow> standardRenderer \<Rightarrow> standardRenderer" where
  "with_buf b r = r\<lparr>buf := b\<rparr>"

text \<open>A stand-in for \<^verbatim>\<open>truncate.String\<close> on lines of one-column ASCII characters without
  escape sequences, where truncating to \<open>n\<close> columns keeps the first \<open>n\<close> bytes. It is used to
  run \<open>flush\<close> on concrete frames only.\<close>

definition truncate_ascii :: "string \<Rightarrow> nat \<Rightarrow> string" where
  "truncate_ascii s n = take n s"

section \<open>Properties of the renderer\<close>

lemma newline_loop_replicate: "newline_loop i d = replicate (nat (d - i)) LF"
proof (induction i d rule: newline_loop.induct)
  case (1 i delta)
  show ?case
  proof (cases "i < delta")
    case True
    then have "nat (delta - i) = Suc (nat (delta - (i + 1)))" by simp
    with True 1 show ?thesis by (subst newline_loop.simps) simp
  next
    case False
    then show ?thesis by (subst newline_loop.simps) simp
  qed
qed

text \<open>
  C4, as the code has it: the tick period is one second divided by \<open>fps\<close> for \<open>fps\<close> from
  1 to 120, one second divided by the default 60 for \<open>fps\<close> below 1, and one second
  divided by the maximum 120 for \<open>fps\<close> above 120 (the value is clamped to the maximum, it
  does not fall back to the default).
\<close>

theorem newRenderer_framerate:
  "framerate (newRenderer c fps) =
     (if fps < 1 then time_Second div 60
      else if fps > 120 then time_Second div 120
      else time_Second div fps)"
  by (simp add: newRenderer_def defaultFPS_def maxFPS_def Let_def)

theorem newRenderer_framerate_witness:
  "framerate (newRenderer False 30) = 33333333
   \<and> framerate (newRenderer False 0) = 16666666
   \<and> framerate (newRenderer False 1000) = 8333333"
  using newRenderer_framerate [of False 30] newRenderer_framerate [of False 0]
    newRenderer_framerate [of False 1000]
  by (simp add: time_Second_def)

text \<open>C4 as stated fails above the range: for \<open>fps = 121\<close> the period is one second divided
  by 120, not one second divided by 60.\<close>

theorem newRenderer_framerate_counterexample:
  "framerate (newRenderer False 121) = time_Second div 120
   \<and> framerate (newRenderer False 121) \<noteq> time_Second div 60"
  by (simp add: newRenderer_def defaultFPS_def maxFPS_def Let_def time_Second_def)

text \<open>
  C9: \<open>moveRenderingHead\<close> appends to the output buffer nothing when the target is the
  rendering head, one line feed when the target is one row below, \<open>CUD(linesRendered -
  renderingHead)\<close> and then \<open>target - linesRendered\<close> line feeds for any other move down to a
  target beyond \<open>linesRendered\<close>, \<open>CUD(delta)\<close> for any other move down and \<open>CUU(-delta)\<close>
  for a move up; afterwards the rendering head is the target and no other field has
  changed.
\<close>

theorem moveRenderingHead_emits:
  "moveRenderingHead r target ob =
     (r\<lparr>renderingHead := target\<rparr>,
      ob @ (let delta = target - renderingHead r in
            if delta = 0 then []
            else if delta = 1 then [LF]
            else if delta > 0 \<and> target > linesRendered r
              then CursorDown (linesRendered r - renderingHead r)
                   @ replicate (nat (target - linesRendered r)) LF
            else if delta > 0 then CursorDown delta
            else CursorUp (- delta)))"
  by (auto simp: moveRenderingHead_def Let_def newline_loop_replicate)

theorem moveRenderingHead_emits_witness:
  "moveRenderingHead ((newRenderer False 60)\<lparr>linesRendered := 1\<rparr>) 3 []
     = ((newRenderer False 60)\<lparr>linesRendered := 1, renderingHead := 3\<rparr>,
        CursorDown 1 @ [LF, LF])"
  using moveRenderingHead_emits [of "(newRenderer False 60)\<lparr>linesRendered := 1\<rparr>" 3 "[]"]
  by (simp add: newRenderer_def Let_def numeral_2_eq_2)

subsection \<open>What \<open>flush\<close> changes and when it returns\<close>

lemma moveRenderingHead_fst:
  "fst (moveRenderingHead r t ob) = r\<lparr>renderingHead := t\<rparr>"
  by (simp add: moveRenderingHead_def Let_def)

lemma keeps_refl: "keeps r r"
  by (simp add: keeps_def)

lemma keeps_trans: "keeps a b \<Longrightarrow> keeps b c \<Longrightarrow> keeps a c"
  by (simp add: keeps_def)

lemma keeps_head: "keeps r (r\<lparr>renderingHead := t\<rparr>)"
  by (simp add: keeps_def)

lemma keeps_skip: "keeps r (r\<lparr>skipLines := t\<rparr>)"
  by (simp add: keeps_def)

lemma keeps_move: "keeps r (fst (moveRenderingHead r t ob))"
  by (simp add: moveRenderingHead_fst keeps_head)

lemma keeps_paint_diff: "keeps r (fst (paint_diff trunc nl num i r ob))"
proof (induction trunc nl num i r ob rule: paint_diff.induct)
  case (1 trunc nl num i r ob)
  show ?case
  proof (cases "i < num")
    case False
    then show ?thesis by (subst paint_diff.simps) (simp add: keeps_refl)
  next
    case True
    show ?thesis
    proof (cases "skipLines r ! nat i")
      case True
      with \<open>i < num\<close> 1(1) show ?thesis by (subst paint_diff.simps) simp
    next
      case False
      from 1(2) [OF \<open>i < num\<close> False refl refl refl refl refl refl]
      show ?thesis
        using \<open>i < num\<close> False
        by (subst paint_diff.simps)
           (auto simp: Let_def intro: keeps_trans [OF keeps_move])
    qed
  qed
qed

lemma keeps_clear_rest: "keeps r (fst (clear_rest i r ob))"
proof (induction i r ob rule: clear_rest.induct)
  case (1 i r ob)
  show ?case
  proof (cases "i < linesRendered r")
    case False
    then show ?thesis by (subst clear_rest.simps) (simp add: keeps_refl)
  next
    case True
    show ?thesis
    proof (cases "skipLines r ! nat i")
      case True
      with \<open>i < linesRendered r\<close> 1(1) show ?thesis by (subst clear_rest.simps) simp
    next
      case False
      from 1(2) [OF \<open>i < linesRendered r\<close> False refl]
      show ?thesis
        using \<open>i < linesRendered r\<close> False
        by (subst clear_rest.simps)
           (auto simp: Let_def intro: keeps_trans [OF keeps_move])
    qed
  qed
qed

lemma keeps_diff_lines: "keeps r (diff_lines r nl i)"
proof (induction r nl i rule: diff_lines.induct)
  case (1 r nl i)
  show ?case
    using 1
    by (subst diff_lines.simps) (auto intro: keeps_trans [OF keeps_skip] keeps_refl)
qed

lemma keeps_ensure: "keeps r (ensureSkiplinesSize r c)"
  by (simp add: ensureSkiplinesSize_def keeps_skip)

lemma keeps_mark: "mark_ignored r c = Inr r' \<Longrightarrow> keeps r r'"
  by (auto simp: mark_ignored_def keeps_skip split: if_splits)

lemma keeps_flush_diff:
  assumes "flush_diff trunc r nl = Inr (r', ob)"
  shows "keeps r r'"
proof -
  define skipCap where "skipCap = (if int (length nl) > linesRendered r then int (length nl) else linesRendered r)"
  define r1 where "r1 = ensureSkiplinesSize r skipCap"
  from assms obtain r2 where r2: "mark_ignored r1 skipCap = Inr r2"
    by (auto simp: flush_diff_def Let_def skipCap_def r1_def split: sum.splits)
  define r3 where "r3 = diff_lines r2 nl 0"
  define p where "p = paint_diff trunc nl (int (length nl)) 0 r3 []"
  define c where "c = clear_rest (int (length nl)) (fst p) (snd p @ [CR])"
  have k1: "keeps r r1" unfolding r1_def by (rule keeps_ensure)
  have k2: "keeps r1 r2" using r2 by (rule keeps_mark)
  have k3: "keeps r2 r3" unfolding r3_def by (rule keeps_diff_lines)
  have k4: "keeps r3 (fst p)" unfolding p_def by (rule keeps_paint_diff)
  have kp: "keeps r (fst p)"
    by (rule keeps_trans [OF keeps_trans [OF keeps_trans [OF k1 k2] k3] k4])
  have "keeps (fst p) (fst c)" unfolding c_def by (rule keeps_clear_rest)
  with kp have kc: "keeps r (fst c)" by (rule keeps_trans)
  have km: "keeps r (fst (moveRenderingHead (fst c) (int (length nl) - 1) (snd c)))"
    using kc keeps_move by (rule keeps_trans)
  have "r' = fst p \<or> r' = fst (moveRenderingHead (fst c) (int (length nl) - 1) (snd c))"
    using assms r2
    by (auto simp: flush_diff_def Let_def skipCap_def [symmetric] r1_def [symmetric]
           r3_def [symmetric] p_def [symmetric] c_def [symmetric] split: if_splits)
  with kp km show ?thesis by auto
qed


lemma flush_full_fst:
  "fst (flush_full trunc r nl)
     = r\<lparr>queuedMessageLines := [], renderingHead := int (length nl) - 1\<rparr>"
  by (simp add: flush_full_def Let_def moveRenderingHead_fst)

lemma mark_ignored_returns:
  assumes "\<forall>i \<in> ignoreLines r. 0 \<le> i"
  shows "\<exists>r'. mark_ignored (ensureSkiplinesSize r c) c = Inr r'"
  using assms by (auto simp: mark_ignored_def ensureSkiplinesSize_def)

lemma flush_diff_returns:
  assumes "\<forall>i \<in> ignoreLines r. 0 \<le> i"
  shows "\<exists>r' ob. flush_diff trunc r nl = Inr (r', ob)"
proof -
  define skipCap where "skipCap = (if int (length nl) > linesRendered r then int (length nl) else linesRendered r)"
  from mark_ignored_returns [OF assms, of skipCap]
  obtain r2 where "mark_ignored (ensureSkiplinesSize r skipCap) skipCap = Inr r2" by blast
  then show ?thesis
    by (cases "moveRenderingHead
                 (fst (clear_rest (int (length nl))
                    (fst (paint_diff trunc nl (int (length nl)) 0 (diff_lines r2 nl 0) []))
                    (snd (paint_diff trunc nl (int (length nl)) 0 (diff_lines r2 nl 0) []) @ [CR])))
                 (int (length nl) - 1)
                 (snd (clear_rest (int (length nl))
                    (fst (paint_diff trunc nl (int (length nl)) 0 (diff_lines r2 nl 0) []))
                    (snd (paint_diff trunc nl (int (length nl)) 0 (diff_lines r2 nl 0) []) @ [CR])))";
        cases "paint_diff trunc nl (int (length nl)) 0 (diff_lines r2 nl 0) []")
       (simp add: flush_diff_def Let_def skipCap_def [symmetric])
qed



lemma clip_height_forceRepaint [simp]:
  "clip_height (r\<lparr>forceRepaint := b\<rparr>) nl = clip_height r nl"
  by (simp add: clip_height_def)

lemma flush_nothing_to_do:
  "nothing_to_do r \<Longrightarrow> flush trunc r = Inr (r\<lparr>forceRepaint := False\<rparr>)"
  by (simp add: flush_def Let_def)

lemma flush_body:
  assumes "\<not> nothing_to_do r" and "flush trunc r = Inr r'"
  obtains r1 ob where
    "(if forceFullFlush r
      then Inr (flush_full trunc (r\<lparr>forceRepaint := False\<rparr>) (clip_height r (strings_Split (buf r))))
      else flush_diff trunc (r\<lparr>forceRepaint := False\<rparr>) (clip_height r (strings_Split (buf r))))
     = Inr (r1, ob)"
    and "r' = r1\<lparr>out := out r1 @ (if altScreenActive r1
                               then ob @ MoveCursor (renderingHead r1 + 1) 0
                               else ob @ CursorBack (width r1)),
                 linesRendered := int (length (clip_height r (strings_Split (buf r)))),
                 lastRenderLines := clip_height r (strings_Split (buf r)),
                 lastRender := buf r, buf := []\<rparr>"
proof -
  let ?body = "(if forceFullFlush r
      then Inr (flush_full trunc (r\<lparr>forceRepaint := False\<rparr>) (clip_height r (strings_Split (buf r))))
      else flush_diff trunc (r\<lparr>forceRepaint := False\<rparr>) (clip_height r (strings_Split (buf r))))"
  have eq: "flush trunc r =
      (case ?body of Inl e \<Rightarrow> Inl e
       | Inr (r1, ob) \<Rightarrow>
           Inr (r1\<lparr>out := out r1 @ (if altScreenActive r1
                               then ob @ MoveCursor (renderingHead r1 + 1) 0
                               else ob @ CursorBack (width r1)),
                 linesRendered := int (length (clip_height r (strings_Split (buf r)))),
                 lastRenderLines := clip_height r (strings_Split (buf r)),
                 lastRender := buf r, buf := []\<rparr>))"
    using assms(1) by (simp add: flush_def Let_def split: sum.splits prod.splits)
  show thesis
  proof (cases ?body)
    case (Inl e)
    with eq assms(2) show thesis by simp
  next
    case (Inr p)
    obtain r1 ob where p: "p = (r1, ob)" by (cases p)
    from eq assms(2) Inr p
    have "r' = r1\<lparr>out := out r1 @ (if altScreenActive r1
                               then ob @ MoveCursor (renderingHead r1 + 1) 0
                               else ob @ CursorBack (width r1)),
                 linesRendered := int (length (clip_height r (strings_Split (buf r)))),
                 lastRenderLines := clip_height r (strings_Split (buf r)),
                 lastRender := buf r, buf := []\<rparr>"
      by simp
    with Inr p that show thesis by blast
  qed
qed

lemma flush_done:
  assumes "\<not> nothing_to_do r" and "flush trunc r = Inr r'"
  shows "buf r' = []" and "lastRender r' = buf r"
    and "lastRenderLines r' = clip_height r (strings_Split (buf r))"
    and "linesRendered r' = int (length (clip_height r (strings_Split (buf r))))"
    and "forceRepaint r' = False"
    and "altScreenActive r' = altScreenActive r"
    and "queuedMessageLines r' = (if forceFullFlush r then [] else queuedMessageLines r)"
proof -
  from assms obtain r1 ob where
    body: "(if forceFullFlush r
      then Inr (flush_full trunc (r\<lparr>forceRepaint := False\<rparr>) (clip_height r (strings_Split (buf r))))
      else flush_diff trunc (r\<lparr>forceRepaint := False\<rparr>) (clip_height r (strings_Split (buf r))))
     = Inr (r1, ob)"
    and r': "r' = r1\<lparr>out := out r1 @ (if altScreenActive r1
                               then ob @ MoveCursor (renderingHead r1 + 1) 0
                               else ob @ CursorBack (width r1)),
                 linesRendered := int (length (clip_height r (strings_Split (buf r)))),
                 lastRenderLines := clip_height r (strings_Split (buf r)),
                 lastRender := buf r, buf := []\<rparr>"
    by (rule flush_body)
  from r' show "buf r' = []" and "lastRender r' = buf r"
    and "lastRenderLines r' = clip_height r (strings_Split (buf r))"
    and "linesRendered r' = int (length (clip_height r (strings_Split (buf r))))"
    by simp_all
  have r1: "forceRepaint r1 = False \<and> altScreenActive r1 = altScreenActive r
            \<and> queuedMessageLines r1 = (if forceFullFlush r then [] else queuedMessageLines r)"
  proof (cases "forceFullFlush r")
    case True
    with body have "r1 = fst (flush_full trunc (r\<lparr>forceRepaint := False\<rparr>)
                               (clip_height r (strings_Split (buf r))))"
      by (simp add: fst_def split: prod.splits)
    with True show ?thesis by (simp add: flush_full_fst)
  next
    case False
    with body have "keeps (r\<lparr>forceRepaint := False\<rparr>) r1"
      by (auto intro: keeps_flush_diff)
    with False show ?thesis by (simp add: keeps_def)
  qed
  with r' show "forceRepaint r' = False" and "altScreenActive r' = altScreenActive r"
    and "queuedMessageLines r' = (if forceFullFlush r then [] else queuedMessageLines r)"
    by simp_all
qed

lemma flush_returns:
  assumes "\<forall>i \<in> ignoreLines r. 0 \<le> i"
  shows "\<exists>r'. flush trunc r = Inr r'"
proof (cases "nothing_to_do r")
  case True
  then show ?thesis by (simp add: flush_nothing_to_do)
next
  case False
  show ?thesis
  proof (cases "forceFullFlush r")
    case True
    with False show ?thesis
      by (simp add: flush_def Let_def split: prod.splits)
  next
    case nf: False
    from assms have "\<forall>i \<in> ignoreLines (r\<lparr>forceRepaint := False\<rparr>). 0 \<le> i" by simp
    from flush_diff_returns [OF this]
    obtain r1 ob where
      "flush_diff trunc (r\<lparr>forceRepaint := False\<rparr>)
          (clip_height r (strings_Split (buf r))) = Inr (r1, ob)"
      by blast
    with False nf show ?thesis by (simp add: flush_def Let_def)
  qed
qed

subsection \<open>The bytes that \<open>flush\<close> writes\<close>

text \<open>Each loop of \<open>flush\<close> writes the bytes that the specification gives for it.\<close>

lemma moveRenderingHead_bytes:
  "moveRenderingHead r t ob
     = (r\<lparr>renderingHead := t\<rparr>, ob @ move_bytes (linesRendered r) (renderingHead r) t)"
  by (auto simp: moveRenderingHead_def move_bytes_def Let_def newline_loop_replicate)

lemma head_after_Cons: "head_after h (i # rows) = head_after (int i) rows"
  by (simp add: head_after_def)

lemma paint_diff_rows:
  "0 \<le> i \<Longrightarrow>
   paint_diff trunc new (int (length new)) i r ob
     = (r\<lparr>renderingHead :=
            head_after (renderingHead r)
              (filter (\<lambda>j. \<not> skipLines r ! j) [nat i ..< length new])\<rparr>,
        ob @ paint_rows trunc (linesRendered r) (width r) new (renderingHead r)
               (filter (\<lambda>j. \<not> skipLines r ! j) [nat i ..< length new]))"
proof (induction "length new - nat i" arbitrary: i r ob)
  case 0
  then have "\<not> i < int (length new)" by simp
  moreover from 0 have "[nat i ..< length new] = []" by simp
  ultimately show ?case
    unfolding paint_diff.simps [of trunc new "int (length new)" i r ob]
    by (simp add: head_after_def)
next
  case (Suc k)
  note E = paint_diff.simps [of trunc new "int (length new)" i r ob]
  from Suc(2,3) have lt: "i < int (length new)" by simp
  from Suc(2,3) have k: "k = length new - nat (i + 1)" by simp
  from Suc(3) have i1: "0 \<le> i + 1" by simp
  from lt Suc(3) have up: "[nat i ..< length new] = nat i # [nat (i + 1) ..< length new]"
    by (simp add: upt_conv_Cons nat_add_distrib)
  from Suc(3) have last: "(i < int (length new) - 1) = (nat i + 1 < length new)" by auto
  show ?case
  proof (cases "skipLines r ! nat i")
    case True
    have "paint_diff trunc new (int (length new)) i r ob
            = paint_diff trunc new (int (length new)) (i + 1) r ob"
      unfolding E using lt True by simp
    also note Suc(1) [OF k i1, of r ob]
    finally show ?thesis unfolding up using True by simp
  next
    case False
    define ob4 where "ob4 = ob @ move_bytes (linesRendered r) (renderingHead r) i
        @ (if i < linesRendered r then ClearLine else [])
        @ shown_line trunc (width r) (new ! nat i)
        @ (if nat i + 1 < length new then [CR] else [])"
    have "paint_diff trunc new (int (length new)) i r ob
            = paint_diff trunc new (int (length new)) (i + 1) (r\<lparr>renderingHead := i\<rparr>) ob4"
      unfolding E ob4_def using lt False
      by (simp add: Let_def moveRenderingHead_bytes shown_line_def last)
    also note Suc(1) [OF k i1, of "r\<lparr>renderingHead := i\<rparr>" ob4]
    finally show ?thesis unfolding up ob4_def using False Suc(3)
      by (simp add: head_after_Cons)
  qed
qed

lemma clear_rest_rows:
  "0 \<le> i \<Longrightarrow>
   clear_rest i r ob
     = (r\<lparr>renderingHead :=
            head_after (renderingHead r)
              (filter (\<lambda>j. \<not> skipLines r ! j) [nat i ..< nat (linesRendered r)])\<rparr>,
        ob @ clear_rows (linesRendered r) (renderingHead r)
               (filter (\<lambda>j. \<not> skipLines r ! j) [nat i ..< nat (linesRendered r)]))"
proof (induction "nat (linesRendered r) - nat i" arbitrary: i r ob)
  case 0
  then have "\<not> i < linesRendered r" by simp
  moreover from 0 have "[nat i ..< nat (linesRendered r)] = []" by simp
  ultimately show ?case
    unfolding clear_rest.simps [of i r ob] by (simp add: head_after_def)
next
  case (Suc k)
  note E = clear_rest.simps [of i r ob]
  from Suc(2,3) have lt: "i < linesRendered r" by simp
  from Suc(3) have i1: "0 \<le> i + 1" by simp
  from lt Suc(3) have up:
    "[nat i ..< nat (linesRendered r)] = nat i # [nat (i + 1) ..< nat (linesRendered r)]"
    by (simp add: upt_conv_Cons nat_add_distrib)
  show ?case
  proof (cases "skipLines r ! nat i")
    case True
    from Suc(2,3) have k: "k = nat (linesRendered r) - nat (i + 1)" by simp
    have "clear_rest i r ob = clear_rest (i + 1) r ob"
      unfolding E using lt True by simp
    also note Suc(1) [OF k i1, of ob]
    finally show ?thesis unfolding up using True by simp
  next
    case False
    let ?r1 = "r\<lparr>renderingHead := i\<rparr>"
    from Suc(2,3) have k: "k = nat (linesRendered ?r1) - nat (i + 1)" by simp
    define ob2 where "ob2 = ob @ move_bytes (linesRendered r) (renderingHead r) i @ ClearLine"
    have "clear_rest i r ob = clear_rest (i + 1) ?r1 ob2"
      unfolding E ob2_def using lt False
      by (simp add: Let_def moveRenderingHead_bytes)
    also note Suc(1) [OF k i1, of ob2]
    finally show ?thesis unfolding up ob2_def using False Suc(3)
      by (simp add: head_after_Cons)
  qed
qed

lemma dump_queued_concat:
  "dump_queued qs ob = ob @ concat (map (\<lambda>q. ClearLine @ q @ [CR, LF]) qs)"
  by (induction qs arbitrary: ob) simp_all

lemma paint_all_frame:
  "paint_all trunc r (int n) (int i) ls ob = ob @ paint_frame trunc (width r) n i ls"
proof (induction ls arbitrary: i ob)
  case Nil
  show ?case by simp
next
  case (Cons l ls)
  have e: "int i + 1 = int (i + 1)" by simp
  have c: "(int i < int n - 1) = (i + 1 < n)" by auto
  show ?case
    unfolding paint_all.simps Let_def e Cons.IH c
    by (simp add: shown_line_def)
qed

lemma diff_lines_skipLines:
  "0 \<le> i \<Longrightarrow>
   diff_lines r new i
     = r\<lparr>skipLines :=
           map (\<lambda>j. skipLines r ! j
                     \<or> (i \<le> int j \<and> int j < linesRendered r
                        \<and> ((j < length new \<and> j < length (lastRenderLines r)
                             \<and> new ! j = lastRenderLines r ! j)
                            \<or> int j \<in> ignoreLines r)))
               [0 ..< length (skipLines r)]\<rparr>"
proof (induction "nat (linesRendered r - i)" arbitrary: i r)
  case 0
  then have n: "\<not> i < linesRendered r" by simp
  then have "map (\<lambda>j. skipLines r ! j
                     \<or> (i \<le> int j \<and> int j < linesRendered r
                        \<and> ((j < length new \<and> j < length (lastRenderLines r)
                             \<and> new ! j = lastRenderLines r ! j)
                            \<or> int j \<in> ignoreLines r)))
               [0 ..< length (skipLines r)] = skipLines r"
    by (intro nth_equalityI) auto
  with n show ?case unfolding diff_lines.simps [of r new i] by simp
next
  case (Suc k)
  note E = diff_lines.simps [of r new i]
  from Suc(2) have lt: "i < linesRendered r" by simp
  from Suc(3) have i1: "0 \<le> i + 1" by simp
  let ?c = "(nat i < length new \<and> nat i < length (lastRenderLines r)
              \<and> new ! nat i = lastRenderLines r ! nat i) \<or> i \<in> ignoreLines r"
  have c: "((int (length new) > i \<and> int (length (lastRenderLines r)) > i)
             \<and> new ! nat i = lastRenderLines r ! nat i \<or> i \<in> ignoreLines r) = ?c"
    using Suc(3) by auto
  show ?case
  proof (cases ?c)
    case True
    let ?r1 = "r\<lparr>skipLines := (skipLines r)[nat i := True]\<rparr>"
    from Suc(2) have k: "k = nat (linesRendered ?r1 - (i + 1))" by simp
    have "diff_lines r new i = diff_lines ?r1 new (i + 1)"
      unfolding E using lt True c by auto
    also note Suc(1) [OF k i1]
    finally have e: "diff_lines r new i = ?r1\<lparr>skipLines :=
           map (\<lambda>j. skipLines ?r1 ! j
                     \<or> (i + 1 \<le> int j \<and> int j < linesRendered ?r1
                        \<and> ((j < length new \<and> j < length (lastRenderLines ?r1)
                             \<and> new ! j = lastRenderLines ?r1 ! j)
                            \<or> int j \<in> ignoreLines ?r1)))
               [0 ..< length (skipLines ?r1)]\<rparr>" .
    have "map (\<lambda>j. skipLines ?r1 ! j
                     \<or> (i + 1 \<le> int j \<and> int j < linesRendered ?r1
                        \<and> ((j < length new \<and> j < length (lastRenderLines ?r1)
                             \<and> new ! j = lastRenderLines ?r1 ! j)
                            \<or> int j \<in> ignoreLines ?r1)))
               [0 ..< length (skipLines ?r1)]
          = map (\<lambda>j. skipLines r ! j
                     \<or> (i \<le> int j \<and> int j < linesRendered r
                        \<and> ((j < length new \<and> j < length (lastRenderLines r)
                             \<and> new ! j = lastRenderLines r ! j)
                            \<or> int j \<in> ignoreLines r)))
               [0 ..< length (skipLines r)]"
    proof (intro nth_equalityI)
      show "length (map (\<lambda>j. skipLines ?r1 ! j
                     \<or> (i + 1 \<le> int j \<and> int j < linesRendered ?r1
                        \<and> ((j < length new \<and> j < length (lastRenderLines ?r1)
                             \<and> new ! j = lastRenderLines ?r1 ! j)
                            \<or> int j \<in> ignoreLines ?r1)))
               [0 ..< length (skipLines ?r1)])
          = length (map (\<lambda>j. skipLines r ! j
                     \<or> (i \<le> int j \<and> int j < linesRendered r
                        \<and> ((j < length new \<and> j < length (lastRenderLines r)
                             \<and> new ! j = lastRenderLines r ! j)
                            \<or> int j \<in> ignoreLines r)))
               [0 ..< length (skipLines r)])" by simp
    next
      fix j
      assume "j < length (map (\<lambda>j. skipLines ?r1 ! j
                     \<or> (i + 1 \<le> int j \<and> int j < linesRendered ?r1
                        \<and> ((j < length new \<and> j < length (lastRenderLines ?r1)
                             \<and> new ! j = lastRenderLines ?r1 ! j)
                            \<or> int j \<in> ignoreLines ?r1)))
               [0 ..< length (skipLines ?r1)])"
      then have j: "j < length (skipLines r)" by simp
      show "map (\<lambda>j. skipLines ?r1 ! j
                     \<or> (i + 1 \<le> int j \<and> int j < linesRendered ?r1
                        \<and> ((j < length new \<and> j < length (lastRenderLines ?r1)
                             \<and> new ! j = lastRenderLines ?r1 ! j)
                            \<or> int j \<in> ignoreLines ?r1)))
               [0 ..< length (skipLines ?r1)] ! j
          = map (\<lambda>j. skipLines r ! j
                     \<or> (i \<le> int j \<and> int j < linesRendered r
                        \<and> ((j < length new \<and> j < length (lastRenderLines r)
                             \<and> new ! j = lastRenderLines r ! j)
                            \<or> int j \<in> ignoreLines r)))
               [0 ..< length (skipLines r)] ! j"
      proof (cases "j = nat i")
        case True
        with j lt Suc(3) \<open>?c\<close> show ?thesis by (simp add: nth_list_update)
      next
        case False
        with Suc(3) have "(i + 1 \<le> int j) = (i \<le> int j)" by auto
        with j False show ?thesis by (simp add: nth_list_update)
      qed
    qed
    with e show ?thesis by simp
  next
    case False
    from Suc(2) have k: "k = nat (linesRendered r - (i + 1))" by simp
    have "diff_lines r new i = diff_lines r new (i + 1)"
      unfolding E using lt False c by auto
    also note Suc(1) [OF k i1]
    finally have e: "diff_lines r new i = r\<lparr>skipLines :=
           map (\<lambda>j. skipLines r ! j
                     \<or> (i + 1 \<le> int j \<and> int j < linesRendered r
                        \<and> ((j < length new \<and> j < length (lastRenderLines r)
                             \<and> new ! j = lastRenderLines r ! j)
                            \<or> int j \<in> ignoreLines r)))
               [0 ..< length (skipLines r)]\<rparr>" .
    have "\<And>j. (skipLines r ! j
                     \<or> (i + 1 \<le> int j \<and> int j < linesRendered r
                        \<and> ((j < length new \<and> j < length (lastRenderLines r)
                             \<and> new ! j = lastRenderLines r ! j)
                            \<or> int j \<in> ignoreLines r)))
              = (skipLines r ! j
                     \<or> (i \<le> int j \<and> int j < linesRendered r
                        \<and> ((j < length new \<and> j < length (lastRenderLines r)
                             \<and> new ! j = lastRenderLines r ! j)
                            \<or> int j \<in> ignoreLines r)))"
    proof -
      fix j
      show "(skipLines r ! j
                     \<or> (i + 1 \<le> int j \<and> int j < linesRendered r
                        \<and> ((j < length new \<and> j < length (lastRenderLines r)
                             \<and> new ! j = lastRenderLines r ! j)
                            \<or> int j \<in> ignoreLines r)))
              = (skipLines r ! j
                     \<or> (i \<le> int j \<and> int j < linesRendered r
                        \<and> ((j < length new \<and> j < length (lastRenderLines r)
                             \<and> new ! j = lastRenderLines r ! j)
                            \<or> int j \<in> ignoreLines r)))"
      proof (cases "int j = i")
        case True
        then have "nat i = j" by simp
        with False True show ?thesis by auto
      next
        case False
        then have "(i + 1 \<le> int j) = (i \<le> int j)" by auto
        then show ?thesis by simp
      qed
    qed
    with e show ?thesis by simp
  qed
qed


lemma skipped_updates [simp]:
  "skipped (r\<lparr>skipLines := S\<rparr>) = skipped r"
  "skipped (r\<lparr>renderingHead := h\<rparr>) = skipped r"
  "skipped (r\<lparr>forceRepaint := b\<rparr>) = skipped r"
  by (simp_all add: skipped_def fun_eq_iff)

lemma spec_output_forceRepaint [simp]:
  "diff_output trunc (r\<lparr>forceRepaint := b\<rparr>) new = diff_output trunc r new"
  "diff_head (r\<lparr>forceRepaint := b\<rparr>) new = diff_head r new"
  "full_output trunc (r\<lparr>forceRepaint := b\<rparr>) new = full_output trunc r new"
  by (simp_all add: diff_output_def diff_head_def full_output_def diff_rows_def stale_rows_def)

lemma flush_diff_tail:
  assumes S: "\<And>j. int j < int (length new) \<or> int j < linesRendered r \<Longrightarrow> S ! j = skipped r new j"
  shows "(let p = paint_diff trunc new (int (length new)) 0 (r\<lparr>skipLines := S\<rparr>) []
          in if int (length new) < linesRendered (fst p)
             then (let c = clear_rest (int (length new)) (fst p) (snd p @ [CR])
                   in Inr (moveRenderingHead (fst c) (int (length new) - 1) (snd c)))
             else Inr p)
         = (Inr (r\<lparr>skipLines := S, renderingHead := diff_head r new\<rparr>, diff_output trunc r new)
              :: panic + standardRenderer \<times> string)"
proof -
  have rows: "filter (\<lambda>j. \<not> S ! j) [0 ..< length new] = diff_rows r new"
    unfolding diff_rows_def by (rule filter_cong) (auto simp: S)
  have stale: "filter (\<lambda>j. \<not> S ! j) [length new ..< nat (linesRendered r)] = stale_rows r new"
    unfolding stale_rows_def by (rule filter_cong) (auto simp: S)
  let ?h1 = "head_after (renderingHead r) (diff_rows r new)"
  let ?b1 = "paint_rows trunc (linesRendered r) (width r) new (renderingHead r) (diff_rows r new)"
  have p: "paint_diff trunc new (int (length new)) 0 (r\<lparr>skipLines := S\<rparr>) []
             = (r\<lparr>skipLines := S, renderingHead := ?h1\<rparr>, ?b1)"
    using paint_diff_rows [of 0 trunc new "r\<lparr>skipLines := S\<rparr>" "[]"] by (simp add: rows)
  show ?thesis
  proof (cases "int (length new) < linesRendered r")
    case False
    then show ?thesis unfolding p Let_def by (simp add: diff_head_def diff_output_def)
  next
    case True
    have c: "clear_rest (int (length new)) (r\<lparr>skipLines := S, renderingHead := ?h1\<rparr>) (?b1 @ [CR])
               = (r\<lparr>skipLines := S, renderingHead := head_after ?h1 (stale_rows r new)\<rparr>,
                  (?b1 @ [CR]) @ clear_rows (linesRendered r) ?h1 (stale_rows r new))"
      using clear_rest_rows [of "int (length new)" "r\<lparr>skipLines := S, renderingHead := ?h1\<rparr>"
                               "?b1 @ [CR]"]
      by (simp add: stale)
    from True show ?thesis unfolding p Let_def
      by (simp add: c moveRenderingHead_bytes diff_head_def diff_output_def)
  qed
qed

lemma flush_diff_output:
  assumes "\<forall>i \<in> ignoreLines r. 0 \<le> i"
  shows "\<exists>S. flush_diff trunc r new
           = Inr (r\<lparr>skipLines := S, renderingHead := diff_head r new\<rparr>, diff_output trunc r new)"
proof -
  define skipCap where
    "skipCap = (if int (length new) > linesRendered r then int (length new) else linesRendered r)"
  define n where
    "n = (if int (length (skipLines r)) < skipCap then nat skipCap else length (skipLines r))"
  define S2 where
    "S2 = map (\<lambda>j. replicate n False ! j \<or> (int j \<in> ignoreLines r \<and> int j < skipCap)) [0 ..< n]"
  define S3 where
    "S3 = map (\<lambda>j. S2 ! j
                     \<or> (0 \<le> int j \<and> int j < linesRendered r
                        \<and> ((j < length new \<and> j < length (lastRenderLines r)
                             \<and> new ! j = lastRenderLines r ! j)
                            \<or> int j \<in> ignoreLines r)))
               [0 ..< length S2]"
  have n: "skipCap \<le> int n" by (simp add: n_def)
  have r1: "ensureSkiplinesSize r skipCap = r\<lparr>skipLines := replicate n False\<rparr>"
    by (simp add: ensureSkiplinesSize_def n_def)
  have r2: "mark_ignored (r\<lparr>skipLines := replicate n False\<rparr>) skipCap = Inr (r\<lparr>skipLines := S2\<rparr>)"
    using assms n by (auto simp: mark_ignored_def S2_def)
  have r3: "diff_lines (r\<lparr>skipLines := S2\<rparr>) new 0 = r\<lparr>skipLines := S3\<rparr>"
    using diff_lines_skipLines [of 0 "r\<lparr>skipLines := S2\<rparr>" new] by (simp add: S3_def)
  have len: "length S3 = n" "length S2 = n" by (simp_all add: S3_def S2_def)
  have S: "S3 ! j = skipped r new j" if "int j < int (length new) \<or> int j < linesRendered r" for j
  proof -
    from that have c: "int j < skipCap" by (auto simp: skipCap_def)
    with n have j: "j < n" by simp
    from j have "S2 ! j = (int j \<in> ignoreLines r \<and> int j < skipCap)"
      by (simp add: S2_def)
    with c have s2: "S2 ! j = (int j \<in> ignoreLines r)" by simp
    from j show ?thesis by (auto simp: S3_def len s2 skipped_def)
  qed
  have "flush_diff trunc r new =
      (let p = paint_diff trunc new (int (length new)) 0 (r\<lparr>skipLines := S3\<rparr>) []
          in if int (length new) < linesRendered (fst p)
             then (let c = clear_rest (int (length new)) (fst p) (snd p @ [CR])
                   in Inr (moveRenderingHead (fst c) (int (length new) - 1) (snd c)))
             else Inr p)"
    unfolding flush_diff_def Let_def skipCap_def [symmetric] r1 r2 by (simp add: r3)
  also note flush_diff_tail [of new r S3 trunc, OF S]
  finally show ?thesis by blast
qed

lemma flush_full_output:
  "flush_full trunc r new
     = (r\<lparr>queuedMessageLines := [], renderingHead := int (length new) - 1\<rparr>,
        full_output trunc r new)"
proof -
  have m: "(if renderingHead r \<noteq> 0 then moveRenderingHead r 0 [] else (r, []))
             = (r\<lparr>renderingHead := 0\<rparr>, move_bytes (linesRendered r) (renderingHead r) 0)"
    by (simp add: moveRenderingHead_bytes move_bytes_def)
  have pa: "paint_all trunc r2 (int (length new)) 0 new ob
              = ob @ paint_frame trunc (width r2) (length new) 0 new" for r2 ob
    using paint_all_frame [of trunc r2 "length new" 0 new ob] by simp
  show ?thesis
    unfolding flush_full_def Let_def m
    by (simp add: pa dump_queued_concat full_output_def)
qed

lemma flush_out:
  assumes "\<not> nothing_to_do r" and "\<forall>i \<in> ignoreLines r. 0 \<le> i"
  shows "\<exists>r'. flush trunc r = Inr r'
           \<and> out r' = out r @ flush_output trunc r (clip_height r (strings_Split (buf r)))"
proof (cases "forceFullFlush r")
  case True
  with assms(1) show ?thesis
    by (simp add: flush_def Let_def flush_full_output flush_output_def)
next
  case False
  from assms(2) have "\<forall>i \<in> ignoreLines (r\<lparr>forceRepaint := False\<rparr>). 0 \<le> i" by simp
  from flush_diff_output [OF this, of trunc "clip_height r (strings_Split (buf r))"]
  obtain S where "flush_diff trunc (r\<lparr>forceRepaint := False\<rparr>) (clip_height r (strings_Split (buf r)))
      = Inr (r\<lparr>forceRepaint := False, skipLines := S,
                renderingHead := diff_head r (clip_height r (strings_Split (buf r)))\<rparr>,
             diff_output trunc r (clip_height r (strings_Split (buf r))))"
    by auto
  with assms(1) False show ?thesis
    by (simp add: flush_def Let_def flush_output_def)
qed

lemma flush_output_buf: "flush_output trunc (r\<lparr>buf := b\<rparr>) new = flush_output trunc r new"
  by (simp add: flush_output_def forceFullFlush_def full_output_def diff_output_def diff_head_def
        diff_rows_def stale_rows_def skipped_def)

lemma full_output_one_line:
  "forceFullFlush r \<Longrightarrow>
   flush_output trunc r [l]
     = move_bytes (linesRendered r) (renderingHead r) 0
       @ concat (map (\<lambda>q. ClearLine @ q @ [CR, LF]) (queuedMessageLines r))
       @ ClearLine @ shown_line trunc (width r) l
       @ (if altScreenActive r then MoveCursor 1 0 else CursorBack (width r))"
  by (simp add: flush_output_def full_output_def)

text \<open>
  C7: when a flush has returned, a second flush directly after it (nothing written, no
  message queued, no repaint forced in between) takes the early exit and returns the renderer
  as it is: no byte is added to the output.
\<close>

theorem flush_idempotent:
  assumes "flush trunc r = Inr r1"
  shows "nothing_to_do r1 \<and> flush trunc r1 = Inr r1"
proof -
  have n: "nothing_to_do r1 \<and> forceRepaint r1 = False"
  proof (cases "nothing_to_do r")
    case True
    with assms have "r1 = r\<lparr>forceRepaint := False\<rparr>" by (simp add: flush_nothing_to_do)
    with True show ?thesis by (simp add: nothing_to_do_def forceFullFlush_def)
  next
    case False
    from flush_done [OF False assms] False show ?thesis
      by (auto simp: nothing_to_do_def forceFullFlush_def split: if_splits)
  qed
  then have "r1\<lparr>forceRepaint := False\<rparr> = r1" by simp
  with n show ?thesis by (simp add: flush_nothing_to_do)
qed


theorem flush_idempotent_witness:
  "flush truncate_ascii ((newRenderer False 60)\<lparr>buf := ''ab'' @ [LF] @ ''cd'', width := 20\<rparr>)
     = Inr ((newRenderer False 60)
             \<lparr>out := ''ab'' @ [CR, LF] @ ''cd'' @ CursorBack 20,
              lastRender := ''ab'' @ [LF] @ ''cd'', lastRenderLines := [''ab'', ''cd''],
              linesRendered := 2, width := 20, skipLines := [False, False],
              renderingHead := 1\<rparr>)
   \<and> flush truncate_ascii ((newRenderer False 60)
             \<lparr>out := ''ab'' @ [CR, LF] @ ''cd'' @ CursorBack 20,
              lastRender := ''ab'' @ [LF] @ ''cd'', lastRenderLines := [''ab'', ''cd''],
              linesRendered := 2, width := 20, skipLines := [False, False],
              renderingHead := 1\<rparr>)
     = Inr ((newRenderer False 60)
             \<lparr>out := ''ab'' @ [CR, LF] @ ''cd'' @ CursorBack 20,
              lastRender := ''ab'' @ [LF] @ ''cd'', lastRenderLines := [''ab'', ''cd''],
              linesRendered := 2, width := 20, skipLines := [False, False],
              renderingHead := 1\<rparr>)"
proof -
  have a: "flush truncate_ascii
             ((newRenderer False 60)\<lparr>buf := ''ab'' @ [LF] @ ''cd'', width := 20\<rparr>)
     = Inr ((newRenderer False 60)
             \<lparr>out := ''ab'' @ [CR, LF] @ ''cd'' @ CursorBack 20,
              lastRender := ''ab'' @ [LF] @ ''cd'', lastRenderLines := [''ab'', ''cd''],
              linesRendered := 2, width := 20, skipLines := [False, False],
              renderingHead := 1\<rparr>)"
    by code_simp
  from flush_idempotent [OF a] a show ?thesis by simp
qed

text \<open>
  C8: a flush that renders (it does not take the early exit; the ignored lines are rows, so
  not negative) returns, and with \<open>k\<close> the number of lines of the pending frame: when
  \<open>height > 0\<close> and \<open>k > height\<close> the lines rendered and recorded are exactly the last
  \<open>height\<close> lines of the frame, \<open>linesRendered\<close> is \<open>height\<close>, and the bytes appended to the
  output are those that the specification gives for a frame of these \<open>height\<close> lines alone;
  when \<open>height = 0\<close> the lines are all \<open>k\<close> lines, and the bytes appended are those of the
  whole frame.
\<close>

theorem flush_height_clip:
  assumes "\<not> nothing_to_do r" and "\<forall>i \<in> ignoreLines r. 0 \<le> i"
  shows "\<exists>r'. flush trunc r = Inr r'
           \<and> (height r > 0 \<and> int (length (strings_Split (buf r))) > height r \<longrightarrow>
                lastRenderLines r'
                  = drop (length (strings_Split (buf r)) - nat (height r))
                      (strings_Split (buf r))
                \<and> linesRendered r' = height r
                \<and> out r' = out r @ flush_output trunc r
                                     (drop (length (strings_Split (buf r)) - nat (height r))
                                        (strings_Split (buf r))))
           \<and> (height r = 0 \<longrightarrow>
                lastRenderLines r' = strings_Split (buf r)
                \<and> linesRendered r' = int (length (strings_Split (buf r)))
                \<and> out r' = out r @ flush_output trunc r (strings_Split (buf r)))"
proof -
  from flush_out [OF assms] obtain r' where r': "flush trunc r = Inr r'"
    and o: "out r' = out r @ flush_output trunc r (clip_height r (strings_Split (buf r)))"
    by blast
  from flush_done(3,4) [OF assms(1) r'] o
  have "(height r > 0 \<and> int (length (strings_Split (buf r))) > height r \<longrightarrow>
                lastRenderLines r'
                  = drop (length (strings_Split (buf r)) - nat (height r))
                      (strings_Split (buf r))
                \<and> linesRendered r' = height r
                \<and> out r' = out r @ flush_output trunc r
                                     (drop (length (strings_Split (buf r)) - nat (height r))
                                        (strings_Split (buf r))))
           \<and> (height r = 0 \<longrightarrow>
                lastRenderLines r' = strings_Split (buf r)
                \<and> linesRendered r' = int (length (strings_Split (buf r)))
                \<and> out r' = out r @ flush_output trunc r (strings_Split (buf r)))"
    by (auto simp: clip_height_def nat_diff_distrib)
  with r' show ?thesis by blast
qed

theorem flush_height_clip_witness:
  "\<exists>r'. flush truncate_ascii
           ((newRenderer False 60)\<lparr>buf := ''a'' @ [LF] @ ''b'' @ [LF] @ ''c'', height := 2\<rparr>)
          = Inr r'
        \<and> lastRenderLines r' = [''b'', ''c''] \<and> linesRendered r' = 2
        \<and> out r' = ''b'' @ [CR, LF] @ ''c'' @ CursorBack 0"
proof -
  let ?r = "(newRenderer False 60)\<lparr>buf := ''a'' @ [LF] @ ''b'' @ [LF] @ ''c'', height := 2\<rparr>"
  have n: "\<not> nothing_to_do ?r" by code_simp
  have i: "\<forall>i \<in> ignoreLines ?r. 0 \<le> i" by (simp add: newRenderer_def Let_def)
  have s: "strings_Split (buf ?r) = [''a'', ''b'', ''c'']" by code_simp
  have h: "height ?r = 2" by simp
  have o: "out ?r @ flush_output truncate_ascii ?r [''b'', ''c'']
             = ''b'' @ [CR, LF] @ ''c'' @ CursorBack 0"
    by code_simp
  from flush_height_clip [OF n i, of truncate_ascii] show ?thesis
    unfolding s h using o by simp
qed

text \<open>The bytes that a rendering flush writes depend on the pending frame only through
  the lines left by the height clipping: another pending frame with the same lines after
  clipping gives the same output.\<close>

lemma with_buf_fields [simp]:
  "out (with_buf b r) = out r" "queuedMessageLines (with_buf b r) = queuedMessageLines r"
  "lastRender (with_buf b r) = lastRender r" "lastRenderLines (with_buf b r) = lastRenderLines r"
  "forceRepaint (with_buf b r) = forceRepaint r" "linesRendered (with_buf b r) = linesRendered r"
  "altScreenActive (with_buf b r) = altScreenActive r" "width (with_buf b r) = width r"
  "height (with_buf b r) = height r" "ignoreLines (with_buf b r) = ignoreLines r"
  "skipLines (with_buf b r) = skipLines r" "renderingHead (with_buf b r) = renderingHead r"
  "buf (with_buf b r) = b"
  by (simp_all add: with_buf_def)

lemma with_buf_updates [simp]:
  "(with_buf b r)\<lparr>skipLines := s\<rparr> = with_buf b (r\<lparr>skipLines := s\<rparr>)"
  "(with_buf b r)\<lparr>renderingHead := h\<rparr> = with_buf b (r\<lparr>renderingHead := h\<rparr>)"
  "(with_buf b r)\<lparr>queuedMessageLines := q\<rparr> = with_buf b (r\<lparr>queuedMessageLines := q\<rparr>)"
  "(with_buf b r)\<lparr>forceRepaint := f\<rparr> = with_buf b (r\<lparr>forceRepaint := f\<rparr>)"
  by (simp_all add: with_buf_def)

lemma move_buf [simp]:
  "moveRenderingHead (with_buf b r) t ob
     = (with_buf b (fst (moveRenderingHead r t ob)), snd (moveRenderingHead r t ob))"
  by (simp add: moveRenderingHead_def Let_def)

lemma paint_diff_buf [simp]:
  "paint_diff trunc nl num i (with_buf b r) ob
     = (with_buf b (fst (paint_diff trunc nl num i r ob)), snd (paint_diff trunc nl num i r ob))"
proof (induction trunc nl num i r ob rule: paint_diff.induct)
  case (1 trunc nl num i r ob)
  show ?case
  proof (cases "i < num")
    case False
    then show ?thesis
      by (subst paint_diff.simps, subst (2) paint_diff.simps, subst (3) paint_diff.simps) simp
  next
    case True
    show ?thesis
    proof (cases "skipLines r ! nat i")
      case True
      with \<open>i < num\<close> 1(1) show ?thesis
        by (subst paint_diff.simps, subst (2) paint_diff.simps, subst (3) paint_diff.simps) simp
    next
      case False
      from 1(2) [OF \<open>i < num\<close> False refl refl refl refl refl refl]
      show ?thesis
        using \<open>i < num\<close> False
        by (subst paint_diff.simps, subst (2) paint_diff.simps, subst (3) paint_diff.simps)
           (auto simp: Let_def)
    qed
  qed
qed

lemma clear_rest_buf [simp]:
  "clear_rest i (with_buf b r) ob
     = (with_buf b (fst (clear_rest i r ob)), snd (clear_rest i r ob))"
proof (induction i r ob rule: clear_rest.induct)
  case (1 i r ob)
  show ?case
  proof (cases "i < linesRendered r")
    case False
    then show ?thesis
      by (subst clear_rest.simps, subst (2) clear_rest.simps, subst (3) clear_rest.simps) simp
  next
    case True
    show ?thesis
    proof (cases "skipLines r ! nat i")
      case True
      with \<open>i < linesRendered r\<close> 1(1) show ?thesis
        by (subst clear_rest.simps, subst (2) clear_rest.simps, subst (3) clear_rest.simps) simp
    next
      case False
      from 1(2) [OF \<open>i < linesRendered r\<close> False refl]
      show ?thesis
        using \<open>i < linesRendered r\<close> False
        by (subst clear_rest.simps, subst (2) clear_rest.simps, subst (3) clear_rest.simps)
           (auto simp: Let_def)
    qed
  qed
qed

lemma diff_lines_buf [simp]:
  "diff_lines (with_buf b r) nl i = with_buf b (diff_lines r nl i)"
proof (induction r nl i rule: diff_lines.induct)
  case (1 r nl i)
  note L = diff_lines.simps [of "with_buf b r" nl i] and R = diff_lines.simps [of r nl i]
  show ?case
  proof (cases "i < linesRendered r")
    case False
    then show ?thesis unfolding L R by simp
  next
    case True
    show ?thesis
    proof (cases "(int (length nl) > i \<and> int (length (lastRenderLines r)) > i)
            \<and> nl ! nat i = lastRenderLines r ! nat i")
      case eq: True
      from 1(1) [OF True eq] True eq show ?thesis unfolding L R by simp
    next
      case ne: False
      show ?thesis
      proof (cases "i \<in> ignoreLines r")
        case ig: True
        from 1(2) [OF True ne ig] True ne ig show ?thesis unfolding L R by auto
      next
        case ni: False
        from 1(3) [OF True ne ni] True ne ni show ?thesis unfolding L R by auto
      qed
    qed
  qed
qed

lemma flush_diff_buf:
  "flush_diff trunc (with_buf b r) nl
     = (case flush_diff trunc r nl of Inl e \<Rightarrow> Inl e
        | Inr p \<Rightarrow> Inr (with_buf b (fst p), snd p))"
  by (simp add: flush_diff_def Let_def ensureSkiplinesSize_def mark_ignored_def)

lemma paint_all_width:
  "width r = width r' \<Longrightarrow> paint_all trunc r num i ls ob = paint_all trunc r' num i ls ob"
  by (induction ls arbitrary: i ob) (simp_all add: Let_def)

lemma flush_full_snd:
  "snd (flush_full trunc r nl)
     = paint_all trunc r (int (length nl)) 0 nl
         (dump_queued (queuedMessageLines r)
            (if renderingHead r \<noteq> 0 then snd (moveRenderingHead r 0 []) else []))"
proof -
  have w: "\<And>x h. paint_all trunc (x\<lparr>renderingHead := h, queuedMessageLines := []\<rparr>)
             = paint_all trunc x"
    by (intro ext paint_all_width) simp
  have w2: "\<And>x. paint_all trunc (x\<lparr>queuedMessageLines := []\<rparr>) = paint_all trunc x"
    by (intro ext paint_all_width) simp
  have w3: "\<And>x h. paint_all trunc (x\<lparr>renderingHead := h\<rparr>) = paint_all trunc x"
    by (intro ext paint_all_width) simp
  show ?thesis
    by (simp add: flush_full_def Let_def moveRenderingHead_fst w w2 w3)
qed

lemma flush_full_buf:
  "flush_full trunc (with_buf b r) nl
     = (with_buf b (fst (flush_full trunc r nl)), snd (flush_full trunc r nl))"
proof -
  have f: "fst (flush_full trunc (with_buf b r) nl) = with_buf b (fst (flush_full trunc r nl))"
    by (simp add: flush_full_fst)
  have p: "paint_all trunc (with_buf b r) = paint_all trunc r"
    by (intro ext paint_all_width) simp
  have s: "snd (flush_full trunc (with_buf b r) nl) = snd (flush_full trunc r nl)"
    by (simp add: flush_full_snd p)
  from f s show ?thesis by (simp add: prod_eq_iff)
qed

lemma with_buf_flush_tests [simp]:
  "forceFullFlush (with_buf b r) = forceFullFlush r"
  "clip_height (with_buf b r) nl = clip_height r nl"
  by (simp_all add: forceFullFlush_def clip_height_def)

lemma flush_output_of_clipped_lines:
  assumes n1: "\<not> nothing_to_do r" and n2: "\<not> nothing_to_do (with_buf b2 r)"
    and same: "clip_height r (strings_Split b2) = clip_height r (strings_Split (buf r))"
    and f1: "flush trunc r = Inr r1" and f2: "flush trunc (with_buf b2 r) = Inr r2"
  shows "out r2 = out r1 \<and> renderingHead r2 = renderingHead r1"
proof -
  let ?nl = "clip_height r (strings_Split (buf r))"
  let ?r0 = "r\<lparr>forceRepaint := False\<rparr>"
  from flush_body [OF n1 f1] obtain ra oa where
    ba: "(if forceFullFlush r then Inr (flush_full trunc ?r0 ?nl) else flush_diff trunc ?r0 ?nl)
           = Inr (ra, oa)"
    and ra: "r1 = ra\<lparr>out := out ra @ (if altScreenActive ra
                               then oa @ MoveCursor (renderingHead ra + 1) 0
                               else oa @ CursorBack (width ra)),
                 linesRendered := int (length ?nl), lastRenderLines := ?nl,
                 lastRender := buf r, buf := []\<rparr>"
    by blast
  from flush_body [OF n2 f2] obtain rb ob where
    bb: "(if forceFullFlush (with_buf b2 r)
          then Inr (flush_full trunc ((with_buf b2 r)\<lparr>forceRepaint := False\<rparr>)
                      (clip_height (with_buf b2 r) (strings_Split (buf (with_buf b2 r)))))
          else flush_diff trunc ((with_buf b2 r)\<lparr>forceRepaint := False\<rparr>)
                      (clip_height (with_buf b2 r) (strings_Split (buf (with_buf b2 r)))))
           = Inr (rb, ob)"
    and rb: "r2 = rb\<lparr>out := out rb @ (if altScreenActive rb
                               then ob @ MoveCursor (renderingHead rb + 1) 0
                               else ob @ CursorBack (width rb)),
                 linesRendered := int (length (clip_height (with_buf b2 r)
                                                  (strings_Split (buf (with_buf b2 r))))),
                 lastRenderLines := clip_height (with_buf b2 r)
                                      (strings_Split (buf (with_buf b2 r))),
                 lastRender := buf (with_buf b2 r), buf := []\<rparr>"
    by blast
  have "Inr (with_buf b2 ra, oa) = (Inr (rb, ob) :: panic + standardRenderer \<times> string)"
  proof (cases "forceFullFlush r")
    case True
    with bb same have "flush_full trunc (with_buf b2 ?r0) ?nl = (rb, ob)" by simp
    moreover from True ba have "flush_full trunc ?r0 ?nl = (ra, oa)" by simp
    ultimately show ?thesis by (simp add: flush_full_buf)
  next
    case False
    with bb same have "flush_diff trunc (with_buf b2 ?r0) ?nl = Inr (rb, ob)" by simp
    moreover from False ba have "flush_diff trunc ?r0 ?nl = Inr (ra, oa)" by simp
    ultimately show ?thesis by (simp add: flush_diff_buf)
  qed
  then have e: "rb = with_buf b2 ra" "ob = oa" by simp_all
  show ?thesis unfolding ra rb e by simp
qed

lemma strings_Split_space: "strings_Split '' '' = ['' '']"
  by (simp add: LF_def)

text \<open>
  C10: \<open>write\<close> with the empty string leaves one space in the pending buffer, and with any
  other string exactly that string. The flush after \<open>write("")\<close> returns (the ignored lines
  being rows, so not negative) with \<open>lastRender\<close> one space. When that frame is on screen
  already and no repaint is due, it writes nothing; otherwise it renders the one line \<open>" "\<close>:
  it appends the bytes that the specification gives for the frame of that line, which in a
  full flush are the move of the head to row 0, the queued lines, \<^verbatim>\<open>EL\<close>, the space (as
  truncated to the width) and the resting cursor.
\<close>

theorem write_empty_is_space:
  assumes "\<forall>i \<in> ignoreLines r. 0 \<le> i"
  shows "buf (renderer_write r []) = '' ''
         \<and> (s \<noteq> [] \<longrightarrow> buf (renderer_write r s) = s)
         \<and> (\<exists>r'. flush trunc (renderer_write r []) = Inr r'
                \<and> lastRender r' = '' ''
                \<and> (nothing_to_do (renderer_write r []) \<longrightarrow> out r' = out r)
                \<and> (\<not> nothing_to_do (renderer_write r []) \<longrightarrow>
                     lastRenderLines r' = ['' ''] \<and> linesRendered r' = 1 \<and> buf r' = []
                     \<and> out r' = out r @ flush_output trunc r ['' ''])
                \<and> (forceFullFlush r \<longrightarrow>
                     out r' = out r
                       @ move_bytes (linesRendered r) (renderingHead r) 0
                       @ concat (map (\<lambda>q. ClearLine @ q @ [CR, LF]) (queuedMessageLines r))
                       @ ClearLine @ shown_line trunc (width r) '' ''
                       @ (if altScreenActive r then MoveCursor 1 0 else CursorBack (width r))))"
proof -
  let ?w = "renderer_write r []"
  have b: "buf ?w = '' ''" by (simp add: renderer_write_def)
  have w: "?w = r\<lparr>buf := '' ''\<rparr>" by (simp add: renderer_write_def)
  have ow: "out ?w = out r" by (simp add: renderer_write_def)
  have fw: "forceFullFlush ?w = forceFullFlush r"
    by (simp add: renderer_write_def forceFullFlush_def)
  from assms have i: "\<forall>i \<in> ignoreLines ?w. 0 \<le> i" by (simp add: renderer_write_def)
  from flush_returns [OF this] obtain r' where r': "flush trunc ?w = Inr r'" by blast
  have c: "clip_height ?w ['' ''] = ['' '']" by (simp add: clip_height_def)
  have "lastRender r' = '' ''
        \<and> (nothing_to_do ?w \<longrightarrow> out r' = out r)
        \<and> (\<not> nothing_to_do ?w \<longrightarrow>
              lastRenderLines r' = ['' ''] \<and> linesRendered r' = 1 \<and> buf r' = []
              \<and> out r' = out r @ flush_output trunc r ['' ''])"
  proof (cases "nothing_to_do ?w")
    case True
    with r' have "r' = ?w\<lparr>forceRepaint := False\<rparr>" by (simp add: flush_nothing_to_do)
    with True b ow show ?thesis by (simp add: nothing_to_do_def)
  next
    case False
    from flush_out [OF False i, of trunc] r'
    have "out r' = out ?w @ flush_output trunc ?w (clip_height ?w (strings_Split (buf ?w)))"
      by simp
    then have o: "out r' = out r @ flush_output trunc r ['' '']"
      unfolding b strings_Split_space c ow unfolding w flush_output_buf .
    from flush_done(1-4) [OF False r', unfolded b strings_Split_space c] o False
    show ?thesis by simp
  qed
  moreover have "forceFullFlush r \<Longrightarrow> \<not> nothing_to_do ?w"
    by (simp add: nothing_to_do_def fw)
  ultimately show ?thesis using b r'
    by (auto simp: renderer_write_def full_output_one_line)
qed

theorem write_empty_is_space_witness:
  "buf (renderer_write (newRenderer False 60) []) = '' ''
   \<and> buf (renderer_write (newRenderer False 60) ''x'') = ''x''
   \<and> (\<exists>r'. flush truncate_ascii (renderer_write (newRenderer False 60) []) = Inr r'
          \<and> lastRender r' = '' '' \<and> lastRenderLines r' = ['' ''] \<and> linesRendered r' = 1
          \<and> buf r' = [] \<and> out r' = '' '' @ CursorBack 0)
   \<and> (\<exists>r'. flush truncate_ascii
               (renderer_write ((newRenderer False 60)
                  \<lparr>forceRepaint := True, lastRender := '' '', lastRenderLines := ['' ''],
                   linesRendered := 1\<rparr>) []) = Inr r'
          \<and> out r' = ClearLine @ '' '' @ CursorBack 0)
   \<and> (\<exists>r'. flush truncate_ascii
               (renderer_write ((newRenderer False 60)
                  \<lparr>lastRender := '' '', lastRenderLines := ['' ''], linesRendered := 1\<rparr>) [])
               = Inr r'
          \<and> out r' = [])"
proof -
  let ?a = "newRenderer False 60"
  let ?b = "(newRenderer False 60)
                  \<lparr>forceRepaint := True, lastRender := '' '', lastRenderLines := ['' ''],
                   linesRendered := 1\<rparr>"
  let ?c = "(newRenderer False 60)
                  \<lparr>lastRender := '' '', lastRenderLines := ['' ''], linesRendered := 1\<rparr>"
  have ia: "\<forall>i \<in> ignoreLines ?a. 0 \<le> i" by (simp add: newRenderer_def Let_def)
  have ib: "\<forall>i \<in> ignoreLines ?b. 0 \<le> i" by (simp add: newRenderer_def Let_def)
  have ic: "\<forall>i \<in> ignoreLines ?c. 0 \<le> i" by (simp add: newRenderer_def Let_def)
  have na: "\<not> nothing_to_do (renderer_write ?a [])" by code_simp
  have oa: "out ?a @ flush_output truncate_ascii ?a ['' ''] = '' '' @ CursorBack 0" by code_simp
  have fb: "forceFullFlush ?b" by code_simp
  have ob: "out ?b @ move_bytes (linesRendered ?b) (renderingHead ?b) 0
               @ concat (map (\<lambda>q. ClearLine @ q @ [CR, LF]) (queuedMessageLines ?b))
               @ ClearLine @ shown_line truncate_ascii (width ?b) '' ''
               @ (if altScreenActive ?b then MoveCursor 1 0 else CursorBack (width ?b))
             = ClearLine @ '' '' @ CursorBack 0" by code_simp
  have nc: "nothing_to_do (renderer_write ?c [])" by code_simp
  have oc: "out ?c = []" by code_simp
  from write_empty_is_space [OF ia, of "''x''" truncate_ascii] na oa
  have A: "buf (renderer_write ?a []) = '' ''
   \<and> buf (renderer_write ?a ''x'') = ''x''
   \<and> (\<exists>r'. flush truncate_ascii (renderer_write ?a []) = Inr r'
          \<and> lastRender r' = '' '' \<and> lastRenderLines r' = ['' ''] \<and> linesRendered r' = 1
          \<and> buf r' = [] \<and> out r' = '' '' @ CursorBack 0)"
    by auto
  from write_empty_is_space [OF ib, of "''x''" truncate_ascii] fb ob
  have B: "\<exists>r'. flush truncate_ascii (renderer_write ?b []) = Inr r'
          \<and> out r' = ClearLine @ '' '' @ CursorBack 0"
    by auto
  from write_empty_is_space [OF ic, of "''x''" truncate_ascii] nc oc
  have C: "\<exists>r'. flush truncate_ascii (renderer_write ?c []) = Inr r' \<and> out r' = []"
    by auto
  from A B C show ?thesis by blast
qed

section \<open>Properties of the cursor-position reply parser\<close>

lemma scan_buf_sep:
  "sep \<noteq> - 1 \<Longrightarrow>
   scan_buf i cs sep =
     (if reply_seps cs \<ge> 1 then MultipleSemicolons
      else if CHR ''R'' \<in> set cs then Scanned (int (i + reply_end cs)) sep
      else Scanned 0 sep)"
  by (induction cs arbitrary: i) (auto simp: reply_seps_def reply_end_def)

lemma scan_buf_nosep:
  "scan_buf i cs (- 1) =
     (if reply_seps cs \<ge> 2 then MultipleSemicolons
      else if CHR ''R'' \<in> set cs
        then Scanned (int (i + reply_end cs))
               (if reply_seps cs = 0 then - 1 else int (i + reply_sep cs))
      else Scanned 0 (if reply_seps cs = 0 then - 1 else int (i + reply_sep cs)))"
proof (induction cs arbitrary: i)
  case Nil
  then show ?case by (simp add: reply_seps_def)
next
  case (Cons c cs)
  show ?case
  proof (cases "c = CHR '';''")
    case True
    have "int i \<noteq> - 1" by simp
    from scan_buf_sep [OF this, of "i + 1" cs] True show ?thesis
      by (auto simp: reply_seps_def reply_end_def reply_sep_def)
  next
    case False
    with Cons [of "i + 1"] show ?thesis
      by (auto simp: reply_seps_def reply_end_def reply_sep_def)
  qed
qed

lemma reply_sep_before_end: "reply_seps b \<ge> 1 \<Longrightarrow> reply_sep b < reply_end b"
  by (induction b) (auto simp: reply_seps_def reply_end_def reply_sep_def split: if_splits)

lemma reply_seps_semicolon: "reply_seps b \<ge> 1 \<Longrightarrow> CHR '';'' \<in> set b"
  by (induction b) (auto simp: reply_seps_def split: if_splits)

lemma reply_end_le: "reply_end b \<le> length b"
  by (simp add: reply_end_def length_takeWhile_le)

lemma reply_prefix:
  "reply_seps (ESC # CHR ''['' # rest) = reply_seps rest"
  "reply_end (ESC # CHR ''['' # rest) = 2 + reply_end rest"
  "reply_sep (ESC # CHR ''['' # rest) = 2 + reply_sep rest"
  by (simp_all add: reply_seps_def reply_end_def reply_sep_def ESC_def)

text \<open>
  C3, as the code has it. For every buffer that starts with the two bytes \<open>ESC [\<close>,
  \<open>parseCursorPositionEvent\<close> returns, and it returns \<open>consumed = -1\<close> exactly when the buffer
  has no \<open>R\<close>, or no \<open>;\<close> before the first \<open>R\<close>, or two or more \<open>;\<close> before the first
  \<open>R\<close>, or \<open>strconv.Atoi\<close> rejects one of the two components (it accepts a sign and then
  decimal digits, within 64 bits). Otherwise it returns the message with \<open>Y\<close> parsed from
  the bytes between offset 2 and the \<open>;\<close> and \<open>X\<close> from the bytes between the \<open>;\<close> and the
  \<open>R\<close>, unchanged, and \<open>consumed = endIdx + 1\<close>.
\<close>

theorem parseCursorPositionEvent_reply:
  assumes b: "b = ESC # CHR ''['' # rest"
  shows "\<exists>ev n. parseCursorPositionEvent b = Inr (ev, n)
           \<and> (n = - 1 \<longleftrightarrow> malformed_reply b)
           \<and> (\<not> malformed_reply b \<longrightarrow>
                ev = \<lparr>X = fst (Atoi (reply_x b)), Y = fst (Atoi (reply_y b))\<rparr>
                \<and> n = int (reply_end b) + 1)"
proof (cases "CHR ''R'' \<notin> set b \<or> reply_seps b = 0 \<or> reply_seps b \<ge> 2")
  case True
  then have m: "malformed_reply b" by (auto simp: malformed_reply_def)
  from True have "parseCursorPositionEvent b = Inr (\<lparr>X = 0, Y = 0\<rparr>, - 1)"
    by (auto simp: parseCursorPositionEvent_def scan_buf_nosep Let_def)
  with m show ?thesis by simp
next
  case False
  then have R: "CHR ''R'' \<in> set b" and one: "reply_seps b = 1" by auto
  from one have lt: "reply_sep b < reply_end b" by (simp add: reply_sep_before_end)
  from one have semi: "CHR '';'' \<in> set b" by (simp add: reply_seps_semicolon)
  have ge2: "2 \<le> reply_sep b" using b by (simp add: reply_prefix)
  have le: "reply_end b \<le> length b" by (rule reply_end_le)
  have sc: "scan_buf 0 b (- 1) = Scanned (int (reply_end b)) (int (reply_sep b))"
    using R one by (simp add: scan_buf_nosep)
  have sy: "slice b 2 (int (reply_sep b)) = Inr (reply_y b)"
    using ge2 lt le by (simp add: slice_def reply_y_def nat_diff_distrib)
  have sx: "slice b (int (reply_sep b) + 1) (int (reply_end b)) = Inr (reply_x b)"
    using ge2 lt le by (simp add: slice_def reply_x_def nat_diff_distrib nat_add_distrib)
  have m: "malformed_reply b \<longleftrightarrow> \<not> snd (Atoi (reply_y b)) \<or> \<not> snd (Atoi (reply_x b))"
    using R one by (simp add: malformed_reply_def)
  show ?thesis
    using sc sy sx m ge2 lt semi
    by (auto simp: parseCursorPositionEvent_def Let_def bytes_SplitN_2_def)
qed

theorem parseCursorPositionEvent_reply_witness:
  "parseCursorPositionEvent (ESC # ''[12;34R'') = Inr (\<lparr>X = 34, Y = 12\<rparr>, 8)
   \<and> \<not> malformed_reply (ESC # ''[12;34R'')"
proof -
  have m: "\<not> malformed_reply (ESC # ''[12;34R'')" by code_simp
  have x: "Atoi (reply_x (ESC # ''[12;34R'')) = (34, True)" by code_simp
  have y: "Atoi (reply_y (ESC # ''[12;34R'')) = (12, True)" by code_simp
  have e: "reply_end (ESC # ''[12;34R'') = 7" by code_simp
  from parseCursorPositionEvent_reply [OF refl, of "''12;34R''"] m
  show ?thesis unfolding x y e by auto
qed

text \<open>
  C3 as stated fails in two ways. A component with a minus sign is not a non-negative
  decimal integer, and the parser accepts it: \<open>ESC [ - 1 ; 2 R\<close> gives \<open>Y = -1\<close> and
  \<open>consumed = 7\<close>. And not every buffer makes the parser return: on \<open>; 1 R\<close> the slice
  \<^verbatim>\<open>buf[2:sepIdx]\<close> has \<open>sepIdx = 0\<close> and panics.
\<close>

theorem parseCursorPositionEvent_counterexample:
  "parseCursorPositionEvent (ESC # ''[-1;2R'') = Inr (\<lparr>X = 2, Y = - 1\<rparr>, 7)
   \<and> \<not> decimal (reply_y (ESC # ''[-1;2R''))
   \<and> parseCursorPositionEvent '';1R'' = Inl SliceBoundsOutOfRange"
  by code_simp

section \<open>Properties of the clickable registry\<close>

subsection \<open>Sequence positions are not negative\<close>

lemma positions_ok_make: "positions_ok makeClickableState"
  by (simp add: positions_ok_def makeClickableState_def)

lemma positions_ok_registerAndWrap:
  "positions_ok cs \<Longrightarrow> positions_ok (fst (registerAndWrap cs S K P))"
  by (auto simp: positions_ok_def registerAndWrap_def stableId_def Let_def zero_bounds_def
        split: option.splits)

lemma positions_ok_swap: "positions_ok cs \<Longrightarrow> positions_ok (swapDoubleBuffer cs)"
  by (simp add: positions_ok_def swapDoubleBuffer_def)

lemma positions_ok_clear:
  "positions_ok cr \<Longrightarrow> positions_ok (cr\<lparr>nextRegistered := Map.empty\<rparr>)"
  "positions_ok cr \<Longrightarrow> positions_ok (cr\<lparr>currentRegistered := Map.empty\<rparr>)"
  by (simp_all add: positions_ok_def)

lemma positions_ok_update:
  "positions_ok cr \<Longrightarrow> 0 \<le> sequencePosition b \<Longrightarrow>
   positions_ok (cr\<lparr>nextRegistered := (nextRegistered cr)(k \<mapsto> e\<lparr>bounds := b\<lparr>end_cell := p\<rparr>\<rparr>)\<rparr>)"
  by (simp add: positions_ok_def)

lemma positions_ok_strip_loop:
  "positions_ok cr \<Longrightarrow> \<forall>b \<in> set stack. 0 \<le> sequencePosition b \<Longrightarrow>
   positions_ok (fst (strip_loop rw rs cr prev cur stack pid sb))"
proof (induction rw rs cr prev cur stack pid sb rule: strip_loop.induct)
  case (1 rw cr prev current parsingClickableStack currentParsingId sb)
  then show ?case by (simp add: positions_ok_clear)
next
  case (2 rw i r rest cr prev current parsingClickableStack currentParsingId sb)
  show ?case
  proof (cases "r = 0xFFF9")
    case True
    with 2(1) [OF True] 2(5,6) show ?thesis by simp
  next
    case n9: False
    show ?thesis
    proof (cases "r = 0xFFFA")
      case True
      with n9 2(2) 2(5,6) show ?thesis by (simp add: positions_ok_clear)
    next
      case na: False
      show ?thesis
      proof (cases "r = 0xFFFB")
        case False
        with n9 na 2(4) 2(5,6) show ?thesis by (simp add: positions_ok_clear)
      next
        case True
        let ?last = "int (length parsingClickableStack) - 1"
        show ?thesis
        proof (cases "?last < 0")
          case True
          with n9 na \<open>r = 0xFFFB\<close> 2(5) show ?thesis by (simp add: positions_ok_clear Let_def)
        next
          case nl: False
          show ?thesis
          proof (cases "nextRegistered cr currentParsingId")
            case None
            with n9 na \<open>r = 0xFFFB\<close> nl 2(5) show ?thesis
              by (simp add: positions_ok_clear Let_def)
          next
            case (Some existing)
            show ?thesis
            proof (cases "generation existing = currentGeneration cr + 1")
              case False
              with n9 na \<open>r = 0xFFFB\<close> nl Some 2(5) show ?thesis
                by (simp add: positions_ok_clear Let_def)
            next
              case True
              from nl have "nat ?last < length parsingClickableStack"
                by (cases parsingClickableStack) auto
              with 2(6) have b: "0 \<le> sequencePosition (parsingClickableStack ! nat ?last)"
                by simp
              have st: "\<forall>b \<in> set (take (nat ?last) parsingClickableStack). 0 \<le> sequencePosition b"
                using 2(6) by (meson in_set_takeD)
              from 2(3) [OF n9 na \<open>r = 0xFFFB\<close> refl nl Some True
                           positions_ok_update [OF 2(5) b] st]
              show ?thesis
                using n9 na \<open>r = 0xFFFB\<close> nl Some True by (simp add: Let_def)
            qed
          qed
        qed
      qed
    qed
  qed
qed

lemma positions_ok_strip:
  "positions_ok cs \<Longrightarrow> positions_ok (fst (stripClickableSequencesFromFrame rw cs frame))"
  using positions_ok_strip_loop [of cs "[]" rw "range_string 0 frame" zero_cell zero_cell "- 1" "[]"]
  by (cases "strip_loop rw (range_string 0 frame) cs zero_cell zero_cell [] (- 1) []")
     (auto simp: stripClickableSequencesFromFrame_def split: option.splits)

subsection \<open>Hit testing\<close>

lemma getClicked_loop_result:
  "getClicked_loop cs p best ks = best
   \<or> (\<exists>k \<in> set ks. currentRegistered cs k = Some (getClicked_loop cs p best ks))
      \<and> hit cs p (getClicked_loop cs p best ks)"
proof (induction ks arbitrary: best)
  case Nil
  then show ?case by simp
next
  case (Cons k ks)
  show ?case
  proof (cases "currentRegistered cs k")
    case None
    with Cons [of best] show ?thesis by auto
  next
    case (Some c)
    show ?thesis
    proof (cases "generation c = currentGeneration cs \<and> containsPoint (bounds c) p
             \<and> sequencePosition (bounds c) \<ge> sequencePosition (bounds best)")
      case True
      then have h: "hit cs p c" using Some by (auto simp: hit_def)
      from Cons [of c] True Some h show ?thesis by auto
    next
      case False
      with Cons [of best] Some show ?thesis by auto
    qed
  qed
qed

lemma getClicked_loop_mono:
  "sequencePosition (bounds best) \<le> sequencePosition (bounds (getClicked_loop cs p best ks))"
proof (induction ks arbitrary: best)
  case Nil
  then show ?case by simp
next
  case (Cons k ks)
  show ?case
  proof (cases "currentRegistered cs k")
    case None
    with Cons [of best] show ?thesis by simp
  next
    case (Some c)
    with Cons [of best] Cons [of c] show ?thesis by auto
  qed
qed

lemma getClicked_loop_max:
  assumes "k \<in> set ks" and "currentRegistered cs k = Some c"
    and "generation c = currentGeneration cs" and "containsPoint (bounds c) p"
  shows "sequencePosition (bounds c) \<le> sequencePosition (bounds (getClicked_loop cs p best ks))"
  using assms
proof (induction ks arbitrary: best)
  case Nil
  then show ?case by simp
next
  case (Cons j ks)
  show ?case
  proof (cases "j = k")
    case True
    show ?thesis
    proof (cases "sequencePosition (bounds c) \<ge> sequencePosition (bounds best)")
      case True
      with \<open>j = k\<close> Cons.prems getClicked_loop_mono [of c cs p ks] show ?thesis by simp
    next
      case False
      with \<open>j = k\<close> Cons.prems getClicked_loop_mono [of best cs p ks] show ?thesis by simp
    qed
  next
    case False
    with Cons.prems have "k \<in> set ks" by simp
    from Cons.IH [OF this Cons.prems(2-4)] show ?thesis
      by (cases "currentRegistered cs j") auto
  qed
qed

lemma getClicked_loop_finds:
  assumes "k \<in> set ks" and "currentRegistered cs k = Some c"
    and "generation c = currentGeneration cs" and "containsPoint (bounds c) p"
    and "sequencePosition (bounds best) \<le> sequencePosition (bounds c)"
  shows "hit cs p (getClicked_loop cs p best ks)"
  using assms
proof (induction ks arbitrary: best)
  case Nil
  then show ?case by simp
next
  case (Cons j ks)
  show ?case
  proof (cases "currentRegistered cs j")
    case None
    with Cons.prems have "k \<in> set ks" by auto
    from Cons.IH [OF this Cons.prems(2-5)] None show ?thesis by simp
  next
    case (Some d)
    show ?thesis
    proof (cases "generation d = currentGeneration cs \<and> containsPoint (bounds d) p
             \<and> sequencePosition (bounds d) \<ge> sequencePosition (bounds best)")
      case True
      then have h: "hit cs p d" using Some by (auto simp: hit_def)
      from getClicked_loop_result [of cs p d ks] h True Some show ?thesis by auto
    next
      case False
      with Cons.prems Some have "k \<in> set ks" by auto
      from Cons.IH [OF this Cons.prems(2-5)] False Some show ?thesis by auto
    qed
  qed
qed

subsection \<open>The swap\<close>

text \<open>
  C2, as the code has it: after \<open>swapDoubleBuffer\<close> the map \<open>currentRegistered\<close> is the map
  that was \<open>nextRegistered\<close> and \<open>currentGeneration\<close> is one more than before; nothing is
  removed from the map. Entries of older generations stay in it and \<open>getClicked\<close> passes
  over them: it returns \<open>nil\<close> or the payload of an entry registered for the new generation.
\<close>

theorem swapDoubleBuffer_generation:
  "currentRegistered (swapDoubleBuffer cs) = nextRegistered cs
   \<and> nextRegistered (swapDoubleBuffer cs) = currentRegistered cs
   \<and> currentGeneration (swapDoubleBuffer cs) = currentGeneration cs + 1
   \<and> (getClicked order (swapDoubleBuffer cs) x y = None
      \<or> (\<exists>k c. nextRegistered cs k = Some c \<and> generation c = currentGeneration cs + 1
            \<and> getClicked order (swapDoubleBuffer cs) x y = data c))"
proof -
  let ?s = "swapDoubleBuffer cs"
  let ?p = "\<lparr>cell_x = x, cell_y = y\<rparr>"
  from getClicked_loop_result [of ?s ?p zero_clickable order]
  have "getClicked order ?s x y = None
        \<or> (\<exists>k c. currentRegistered ?s k = Some c \<and> generation c = currentGeneration ?s
              \<and> getClicked order ?s x y = data c)"
    by (auto simp: getClicked_def zero_clickable_def hit_def)
  then show ?thesis by (simp add: swapDoubleBuffer_def)
qed


theorem swapDoubleBuffer_generation_witness:
  "currentGeneration (frame_step makeClickableState ''a'' ''link-1'' ''DATA-1'') = 1
   \<and> getClicked [0] (frame_step makeClickableState ''a'' ''link-1'' ''DATA-1'') 0 0
       = Some ''DATA-1''"
proof -
  let ?w = "registerAndWrap (makeClickableState :: string clickableState)
              ''a'' ''link-1'' (Some ''DATA-1'')"
  let ?cs = "fst (stripClickableSequencesFromFrame width_ascii (fst ?w) (snd ?w))"
  have g: "currentGeneration ?cs = 0" by code_simp
  have c: "getClicked [0] (swapDoubleBuffer ?cs) 0 0 = Some ''DATA-1''" by code_simp
  from swapDoubleBuffer_generation [of ?cs "[0]" 0 0] g c
  show ?thesis by (simp add: frame_step_def Let_def)
qed

text \<open>C2 as stated fails: after three frames, each with a clickable of its own, the entry
  of the first frame is in \<open>currentRegistered\<close> with generation 1, while
  \<open>currentGeneration\<close> is 3.\<close>

theorem swapDoubleBuffer_counterexample:
  "currentRegistered stale_run 0
     = Some \<lparr>data = Some ''DATA-1'', bounds = zero_bounds, generation = 1\<rparr>
   \<and> currentGeneration stale_run = 3"
  by code_simp

subsection \<open>Malformed frames\<close>

text \<open>
  C1 at a registry where \<open>registerAndWrap\<close> has put an entry into \<open>nextRegistered\<close>: on the
  unterminated frame the input comes back unchanged, and the entry is still in
  \<open>nextRegistered\<close>.
\<close>

theorem strip_unterminated_keeps_nextRegistered:
  "snd (stripClickableSequencesFromFrame width_ascii
          (fst (registerAndWrap makeClickableState ''x'' ''link-1'' (Some ''DATA-1'')))
          unterminated_frame) = unterminated_frame
   \<and> nextRegistered
        (fst (stripClickableSequencesFromFrame width_ascii
               (fst (registerAndWrap makeClickableState ''x'' ''link-1'' (Some ''DATA-1'')))
               unterminated_frame)) 0
      = Some \<lparr>data = Some ''DATA-1'', bounds = zero_bounds, generation = 1\<rparr>"
  by code_simp


text \<open>On every registry, the first three malformed frames empty \<open>currentRegistered\<close> and
  leave \<open>nextRegistered\<close> as it is; the other three empty \<open>nextRegistered\<close>.\<close>

lemma unterminated_runes:
  "range_string 0 unterminated_frame =
     [(0, 72), (1, 101), (2, 108), (3, 108), (4, 111), (5, 33), (6, 0xFFF9), (9, 115),
      (10, 101), (11, 113), (12, 117), (13, 101), (14, 110), (15, 99), (16, 101),
      (17, 0xFFFA)]"
  by code_simp

lemma text_after_id_runes:
  "range_string 0 text_after_id_frame =
     [(0, 72), (1, 101), (2, 108), (3, 108), (4, 111), (5, 33), (6, 0xFFF9), (9, 115),
      (10, 101), (11, 113), (12, 117), (13, 101), (14, 110), (15, 99), (16, 101),
      (17, 0xFFFA), (20, 97), (21, 98), (22, 99)]"
  by code_simp

lemma lone_start_runes:
  "range_string 0 lone_start_frame =
     [(0, 72), (1, 101), (2, 108), (3, 108), (4, 111), (5, 33), (6, 0xFFF9), (9, 115),
      (10, 101), (11, 113), (12, 117), (13, 101), (14, 110), (15, 99), (16, 101)]"
  by code_simp

lemma orphan_id_runes:
  "range_string 0 orphan_id_frame =
     [(0, 72), (1, 101), (2, 108), (3, 108), (4, 111), (5, 33), (6, 115),
      (7, 101), (8, 113), (9, 117), (10, 101), (11, 110), (12, 99), (13, 101),
      (14, 0xFFFA), (17, 0xFFFB)]"
  by code_simp

lemma unregistered_id_runes:
  "range_string 0 unregistered_id_frame =
     [(0, 72), (1, 101), (2, 108), (3, 108), (4, 111), (5, 33), (6, 0xFFF9), (9, 115),
      (10, 101), (11, 113), (12, 117), (13, 101), (14, 110), (15, 99), (16, 101),
      (17, 0xFFFA), (20, 0xFFFA), (23, 0xFFFA), (26, 0xFFFA), (29, 0xFFFB)]"
  by code_simp

lemma orphan_end_runes:
  "range_string 0 orphan_end_frame =
     [(0, 72), (1, 101), (2, 108), (3, 108), (4, 111), (5, 33), (6, 115),
      (7, 101), (8, 113), (9, 117), (10, 101), (11, 110), (12, 99), (13, 101),
      (14, 0xFFFB)]"
  by code_simp

lemma strip_malformed_clears_currentRegistered:
  "stripClickableSequencesFromFrame rw cs unterminated_frame
     = (cs\<lparr>currentRegistered := Map.empty\<rparr>, unterminated_frame)"
  "stripClickableSequencesFromFrame rw cs text_after_id_frame
     = (cs\<lparr>currentRegistered := Map.empty\<rparr>, text_after_id_frame)"
  "stripClickableSequencesFromFrame rw cs lone_start_frame
     = (cs\<lparr>currentRegistered := Map.empty\<rparr>, lone_start_frame)"
  by (simp_all add: stripClickableSequencesFromFrame_def unterminated_runes
        text_after_id_runes lone_start_runes)

lemma strip_malformed_clears_nextRegistered:
  "stripClickableSequencesFromFrame rw cs orphan_id_frame
     = (cs\<lparr>nextRegistered := Map.empty\<rparr>, orphan_id_frame)"
  "nextRegistered cs 4 = None \<Longrightarrow>
   stripClickableSequencesFromFrame rw cs unregistered_id_frame
     = (cs\<lparr>nextRegistered := Map.empty\<rparr>, unregistered_id_frame)"
  "stripClickableSequencesFromFrame rw cs orphan_end_frame
     = (cs\<lparr>nextRegistered := Map.empty\<rparr>, orphan_end_frame)"
  by (simp_all add: stripClickableSequencesFromFrame_def orphan_id_runes
        unregistered_id_runes orphan_end_runes)


subsection \<open>UTF-8: decoding and encoding\<close>

lemma utf8_encode_markers:
  "utf8_encode 0xFFF9 = [CHR 0xEF, CHR 0xBF, CHR 0xB9]"
  "utf8_encode 0xFFFA = [CHR 0xEF, CHR 0xBF, CHR 0xBA]"
  "utf8_encode 0xFFFB = [CHR 0xEF, CHR 0xBF, CHR 0xBB]"
  by code_simp+

lemma decode_markers:
  "DecodeRuneInString (utf8_encode 0xFFF9 @ t) = (0xFFF9, 3)"
  "DecodeRuneInString (utf8_encode 0xFFFA @ t) = (0xFFFA, 3)"
  "DecodeRuneInString (utf8_encode 0xFFFB @ t) = (0xFFFB, 3)"
  by (simp_all add: utf8_encode_markers DecodeRuneInString_def cont_byte_def)

lemma decode_size_pos: "s \<noteq> [] \<Longrightarrow> 1 \<le> snd (DecodeRuneInString s)"
  by (auto simp: DecodeRuneInString_def Let_def split: list.splits)

lemma decode_size_le:
  "s \<noteq> [] \<Longrightarrow> snd (DecodeRuneInString s) \<le> length s"
  by (auto simp: DecodeRuneInString_def Let_def split: list.splits)


lemma list_shape4:
  obtains "s = []" | c0 where "s = [c0]" | c0 c1 where "s = [c0, c1]"
  | c0 c1 c2 where "s = [c0, c1, c2]" | c0 c1 c2 c3 u where "s = c0 # c1 # c2 # c3 # u"
proof (cases s)
  case Nil then show ?thesis using that by simp
next
  case (Cons c0 s1)
  then show ?thesis
  proof (cases s1)
    case Nil with Cons show ?thesis using that by simp
  next
    case (Cons c1 s2)
    note s1 = this
    show ?thesis
    proof (cases s2)
      case Nil with \<open>s = c0 # s1\<close> s1 show ?thesis using that by simp
    next
      case (Cons c2 s3)
      show ?thesis
      proof (cases s3)
        case Nil with \<open>s = c0 # s1\<close> s1 Cons show ?thesis using that by simp
      next
        case (Cons c3 u)
        with \<open>s = c0 # s1\<close> s1 \<open>s2 = c2 # s3\<close> show ?thesis using that by simp
      qed
    qed
  qed
qed

lemma decode_append:
  assumes "s \<noteq> []" and "DecodeRuneInString s \<noteq> (RuneError, 1)"
  shows "DecodeRuneInString (s @ t) = DecodeRuneInString s"
proof (cases s rule: list_shape4)
  case 1
  with assms show ?thesis by simp
next
  case (2 c0)
  with assms show ?thesis
    by (simp add: DecodeRuneInString_def Let_def split: if_splits)
next
  case (3 c0 c1)
  with assms show ?thesis
    by (simp add: DecodeRuneInString_def Let_def split: if_splits)
next
  case (4 c0 c1 c2)
  with assms show ?thesis
    by (simp add: DecodeRuneInString_def Let_def split: if_splits)
next
  case (5 c0 c1 c2 c3 u)
  then show ?thesis
    by (simp add: DecodeRuneInString_def Let_def)
qed



lemma of_char_int_nonneg: "0 \<le> (of_char c :: int)"
proof -
  have "(of_char c :: int) = int (of_char c)" by (simp add: of_nat_of_char)
  then show ?thesis by simp
qed


lemma split_digit:
  fixes a b m :: int
  assumes "0 \<le> b" "b < m"
  shows "(a * m + b) div m = a" and "(a * m + b) mod m = b"
proof -
  from assms have m: "m \<noteq> 0" by auto
  have "(b + a * m) div m = a + b div m" using m by (rule div_mult_self1)
  moreover have "b div m = 0" using assms by (simp add: div_pos_pos_trivial)
  ultimately show "(a * m + b) div m = a" by (simp add: add.commute)
  have "(b + a * m) mod m = b mod m" by (rule mod_mult_self1)
  moreover have "b mod m = b" using assms by (simp add: mod_pos_pos_trivial)
  ultimately show "(a * m + b) mod m = b" by (simp add: add.commute)
qed

lemma digits3:
  fixes a b c :: int
  assumes "0 \<le> b" "b < 64" "0 \<le> c" "c < 64"
  shows "(a * 4096 + b * 64 + c) div 4096 = a"
    and "((a * 4096 + b * 64 + c) div 64) mod 64 = b"
    and "(a * 4096 + b * 64 + c) mod 64 = c"
proof -
  have e1: "a * 4096 + b * 64 + c = a * 4096 + (b * 64 + c)" by simp
  have r1: "0 \<le> b * 64 + c" "b * 64 + c < 4096" using assms by simp_all
  show "(a * 4096 + b * 64 + c) div 4096 = a"
    unfolding e1 using r1 by (rule split_digit)
  have e2: "a * 4096 + b * 64 + c = (a * 64 + b) * 64 + c" by simp
  have d: "(a * 4096 + b * 64 + c) div 64 = a * 64 + b"
    unfolding e2 using assms(3,4) by (rule split_digit)
  show "((a * 4096 + b * 64 + c) div 64) mod 64 = b"
    unfolding d using assms(1,2) by (rule split_digit)
  show "(a * 4096 + b * 64 + c) mod 64 = c"
    unfolding e2 using assms(3,4) by (rule split_digit)
qed

lemma digits4:
  fixes a b c d :: int
  assumes "0 \<le> b" "b < 64" "0 \<le> c" "c < 64" "0 \<le> d" "d < 64"
  shows "(a * 262144 + b * 4096 + c * 64 + d) div 262144 = a"
    and "((a * 262144 + b * 4096 + c * 64 + d) div 4096) mod 64 = b"
    and "((a * 262144 + b * 4096 + c * 64 + d) div 64) mod 64 = c"
    and "(a * 262144 + b * 4096 + c * 64 + d) mod 64 = d"
proof -
  let ?r = "a * 262144 + b * 4096 + c * 64 + d"
  have e1: "?r = a * 262144 + (b * 4096 + c * 64 + d)" by simp
  have r1: "0 \<le> b * 4096 + c * 64 + d" "b * 4096 + c * 64 + d < 262144"
    using assms by simp_all
  show "?r div 262144 = a" unfolding e1 using r1 by (rule split_digit)
  have e2: "?r = (a * 64 + b) * 4096 + (c * 64 + d)" by simp
  have r2: "0 \<le> c * 64 + d" "c * 64 + d < 4096" using assms by simp_all
  have d2: "?r div 4096 = a * 64 + b" unfolding e2 using r2 by (rule split_digit)
  show "(?r div 4096) mod 64 = b" unfolding d2 using assms(1,2) by (rule split_digit)
  have e3: "?r = (a * 4096 + b * 64 + c) * 64 + d" by simp
  have d3: "?r div 64 = (a * 64 + b) * 64 + c"
    unfolding e3 using assms(5,6) by (simp add: split_digit)
  show "(?r div 64) mod 64 = c" unfolding d3 using assms(3,4) by (rule split_digit)
  show "?r mod 64 = d" unfolding e3 using assms(5,6) by (rule split_digit)
qed

lemma encode2:
  fixes b0 b1 :: int
  assumes "0xC2 \<le> b0" "b0 \<le> 0xDF" "cont_byte b1"
  shows "utf8_encode ((b0 - 0xC0) * 64 + (b1 - 0x80)) = [char_of b0, char_of b1]"
proof -
  define r where "r = (b0 - 0xC0) * 64 + (b1 - 0x80)"
  from assms have b1: "0 \<le> b1 - 0x80" "b1 - 0x80 < 64" by (simp_all add: cont_byte_def)
  have rng: "0x80 \<le> r" "r \<le> 0x7FF" using assms(1,2) b1 by (simp_all add: r_def)
  have d: "r div 64 = b0 - 0xC0" "r mod 64 = b1 - 0x80"
    unfolding r_def using b1 by (rule split_digit)+
  show ?thesis
    unfolding r_def [symmetric] using rng d by (simp add: utf8_encode_def)
qed

lemma encode3:
  fixes b0 b1 b2 :: int
  assumes "0xE0 \<le> b0" "b0 \<le> 0xEF"
    and "(if b0 = 0xE0 then 0xA0 else 0x80) \<le> b1"
    and "b1 \<le> (if b0 = 0xED then 0x9F else 0xBF)" and "cont_byte b2"
  shows "utf8_encode ((b0 - 0xE0) * 4096 + (b1 - 0x80) * 64 + (b2 - 0x80))
           = [char_of b0, char_of b1, char_of b2]"
proof -
  define r where "r = (b0 - 0xE0) * 4096 + (b1 - 0x80) * 64 + (b2 - 0x80)"
  from assms have b2: "0 \<le> b2 - 0x80" "b2 - 0x80 < 64" by (simp_all add: cont_byte_def)
  from assms have b1: "0 \<le> b1 - 0x80" "b1 - 0x80 < 64" by (simp_all split: if_splits)
  have lo: "0x800 \<le> r" using assms(1-3) b1 b2 by (auto simp: r_def split: if_splits)
  have hi: "r \<le> 0xFFFF" using assms(1,2) b1 b2 by (simp add: r_def)
  have sur: "\<not> (0xD800 \<le> r \<and> r \<le> 0xDFFF)"
    using assms(1,2,4) b1 b2 by (auto simp: r_def split: if_splits)
  have d: "r div 4096 = b0 - 0xE0" "(r div 64) mod 64 = b1 - 0x80" "r mod 64 = b2 - 0x80"
    unfolding r_def using b1 b2 by (rule digits3)+
  have enc: "utf8_encode r = [char_of (0xE0 + r div 4096), char_of (0x80 + (r div 64) mod 64),
                char_of (0x80 + r mod 64)]"
  proof -
    have c1: "\<not> (0 \<le> r \<and> r \<le> 0x7F)" "\<not> (0 \<le> r \<and> r \<le> 0x7FF)" using lo by auto
    have c2: "\<not> (r < 0 \<or> r > 0x10FFFF \<or> (0xD800 \<le> r \<and> r \<le> 0xDFFF))"
      using lo hi sur by auto
    show ?thesis
      unfolding utf8_encode_def Let_def by (simp only: c1 c2 hi if_False if_True)
  qed
  show ?thesis
    unfolding r_def [symmetric] enc d by simp
qed

lemma encode4:
  fixes b0 b1 b2 b3 :: int
  assumes "0xF0 \<le> b0" "b0 \<le> 0xF4"
    and "(if b0 = 0xF0 then 0x90 else 0x80) \<le> b1"
    and "b1 \<le> (if b0 = 0xF4 then 0x8F else 0xBF)" and "cont_byte b2" and "cont_byte b3"
  shows "utf8_encode ((b0 - 0xF0) * 262144 + (b1 - 0x80) * 4096 + (b2 - 0x80) * 64
                       + (b3 - 0x80))
           = [char_of b0, char_of b1, char_of b2, char_of b3]"
proof -
  define r where "r = (b0 - 0xF0) * 262144 + (b1 - 0x80) * 4096 + (b2 - 0x80) * 64
                       + (b3 - 0x80)"
  from assms have b2: "0 \<le> b2 - 0x80" "b2 - 0x80 < 64" by (simp_all add: cont_byte_def)
  from assms have b3: "0 \<le> b3 - 0x80" "b3 - 0x80 < 64" by (simp_all add: cont_byte_def)
  from assms have b1: "0 \<le> b1 - 0x80" "b1 - 0x80 < 64" by (simp_all split: if_splits)
  have lo: "0x10000 \<le> r" using assms(1-3) b1 b2 b3 by (auto simp: r_def split: if_splits)
  have hi: "r \<le> 0x10FFFF" using assms(1,2,4) b1 b2 b3 by (auto simp: r_def split: if_splits)
  have d: "r div 262144 = b0 - 0xF0" "(r div 4096) mod 64 = b1 - 0x80"
    "(r div 64) mod 64 = b2 - 0x80" "r mod 64 = b3 - 0x80"
    unfolding r_def using b1 b2 b3 by (rule digits4)+
  have enc: "utf8_encode r = [char_of (0xF0 + r div 262144), char_of (0x80 + (r div 4096) mod 64),
                  char_of (0x80 + (r div 64) mod 64), char_of (0x80 + r mod 64)]"
  proof -
    have c1: "\<not> (0 \<le> r \<and> r \<le> 0x7F)" "\<not> (0 \<le> r \<and> r \<le> 0x7FF)" using lo by auto
    have c2: "\<not> (r < 0 \<or> r > 0x10FFFF \<or> (0xD800 \<le> r \<and> r \<le> 0xDFFF))"
      using lo hi by auto
    have c3: "\<not> r \<le> 0xFFFF" using lo by auto
    show ?thesis
      unfolding utf8_encode_def Let_def by (simp only: c1 c2 c3 if_False if_True)
  qed
  show ?thesis
    unfolding r_def [symmetric] enc d by simp
qed


lemma encode_decode_step:
  assumes "s \<noteq> []" and "DecodeRuneInString s \<noteq> (RuneError, 1)"
  shows "utf8_encode (fst (DecodeRuneInString s)) = take (snd (DecodeRuneInString s)) s"
proof -
  from assms(1) obtain c0 cs where s: "s = c0 # cs" by (cases s) auto
  let ?b0 = "of_char c0 :: int"
  consider (one) "?b0 < 0x80"
    | (two) "0xC2 \<le> ?b0" "?b0 \<le> 0xDF"
    | (three) "0xE0 \<le> ?b0" "?b0 \<le> 0xEF"
    | (four) "0xF0 \<le> ?b0" "?b0 \<le> 0xF4"
    | (bad) "\<not> ?b0 < 0x80" "\<not> (0xC2 \<le> ?b0 \<and> ?b0 \<le> 0xDF)"
        "\<not> (0xE0 \<le> ?b0 \<and> ?b0 \<le> 0xEF)" "\<not> (0xF0 \<le> ?b0 \<and> ?b0 \<le> 0xF4)"
    by linarith
  then show ?thesis
  proof cases
    case one
    then have d: "DecodeRuneInString s = (?b0, 1)" by (simp add: s DecodeRuneInString_def)
    from one of_char_int_nonneg [of c0] have "utf8_encode ?b0 = [c0]"
      by (simp add: utf8_encode_def)
    with d show ?thesis by (simp add: s)
  next
    case two
    show ?thesis
    proof (cases cs)
      case Nil
      with two assms(2) show ?thesis by (simp add: s DecodeRuneInString_def)
    next
      case (Cons c1 u)
      let ?b1 = "of_char c1 :: int"
      from two assms(2) have c: "cont_byte ?b1"
        by (simp add: s Cons DecodeRuneInString_def Let_def split: if_splits)
      with two have d: "DecodeRuneInString s = ((?b0 - 0xC0) * 64 + (?b1 - 0x80), 2)"
        by (simp add: s Cons DecodeRuneInString_def Let_def)
      from encode2 [OF two c] d show ?thesis by (simp add: s Cons)
    qed
  next
    case three
    then have n1: "\<not> ?b0 < 0x80" "\<not> (0xC2 \<le> ?b0 \<and> ?b0 \<le> 0xDF)" by auto
    show ?thesis
    proof (cases s rule: list_shape4)
      case 1 with s show ?thesis by simp
    next
      case (2 a)
      with s have "a = c0" by simp
      with three n1 assms(2) show ?thesis by (simp add: 2 DecodeRuneInString_def Let_def)
    next
      case (3 a b)
      with s have "a = c0" by simp
      with three n1 assms(2) show ?thesis by (simp add: 3 DecodeRuneInString_def Let_def)
    next
      case (4 a c1 c2)
      with s have a: "a = c0" by simp
      let ?b1 = "of_char c1 :: int" and ?b2 = "of_char c2 :: int"
      from three n1 assms(2) have c: "(if ?b0 = 0xE0 then 0xA0 else 0x80) \<le> ?b1"
        "?b1 \<le> (if ?b0 = 0xED then 0x9F else 0xBF)" "cont_byte ?b2"
        by (simp_all add: 4 a DecodeRuneInString_def Let_def split: if_splits)
      with three n1 have d: "DecodeRuneInString s
          = ((?b0 - 0xE0) * 4096 + (?b1 - 0x80) * 64 + (?b2 - 0x80), 3)"
        by (simp add: 4 a DecodeRuneInString_def Let_def)
      from encode3 [OF three c] d show ?thesis by (simp add: 4 a)
    next
      case (5 a c1 c2 c3 u)
      with s have a: "a = c0" by simp
      let ?b1 = "of_char c1 :: int" and ?b2 = "of_char c2 :: int"
      from three n1 assms(2) have c: "(if ?b0 = 0xE0 then 0xA0 else 0x80) \<le> ?b1"
        "?b1 \<le> (if ?b0 = 0xED then 0x9F else 0xBF)" "cont_byte ?b2"
        by (simp_all add: 5 a DecodeRuneInString_def Let_def split: if_splits)
      with three n1 have d: "DecodeRuneInString s
          = ((?b0 - 0xE0) * 4096 + (?b1 - 0x80) * 64 + (?b2 - 0x80), 3)"
        by (simp add: 5 a DecodeRuneInString_def Let_def)
      from encode3 [OF three c] d show ?thesis by (simp add: 5 a)
    qed
  next
    case four
    then have n1: "\<not> ?b0 < 0x80" "\<not> (0xC2 \<le> ?b0 \<and> ?b0 \<le> 0xDF)"
      "\<not> (0xE0 \<le> ?b0 \<and> ?b0 \<le> 0xEF)" by auto
    show ?thesis
    proof (cases s rule: list_shape4)
      case 1 with s show ?thesis by simp
    next
      case (2 a)
      with s have "a = c0" by simp
      with four n1 assms(2) show ?thesis by (simp add: 2 DecodeRuneInString_def Let_def)
    next
      case (3 a b)
      with s have "a = c0" by simp
      with four n1 assms(2) show ?thesis by (simp add: 3 DecodeRuneInString_def Let_def)
    next
      case (4 a b c)
      with s have "a = c0" by simp
      with four n1 assms(2) show ?thesis by (simp add: 4 DecodeRuneInString_def Let_def)
    next
      case (5 a c1 c2 c3 u)
      with s have a: "a = c0" by simp
      let ?b1 = "of_char c1 :: int" and ?b2 = "of_char c2 :: int" and ?b3 = "of_char c3 :: int"
      from four n1 assms(2) have c: "(if ?b0 = 0xF0 then 0x90 else 0x80) \<le> ?b1"
        "?b1 \<le> (if ?b0 = 0xF4 then 0x8F else 0xBF)" "cont_byte ?b2" "cont_byte ?b3"
        by (simp_all add: 5 a DecodeRuneInString_def Let_def split: if_splits)
      with four n1 have d: "DecodeRuneInString s
          = ((?b0 - 0xF0) * 262144 + (?b1 - 0x80) * 4096 + (?b2 - 0x80) * 64 + (?b3 - 0x80), 4)"
        by (simp add: 5 a DecodeRuneInString_def Let_def)
      from encode4 [OF four c] d show ?thesis by (simp add: 5 a)
    qed
  next
    case bad
    with assms(2) show ?thesis by (simp add: s DecodeRuneInString_def)
  qed
qed


subsection \<open>Wrapping and stripping\<close>

lemma range_string_Nil [simp]: "range_string i [] = []"
  by (subst range_string.simps) simp

lemma range_string_runes: "map snd (range_string i s) = map snd (range_string j s)"
proof (induction i s arbitrary: j rule: range_string.induct)
  case (1 i s)
  show ?case
  proof (cases "s = []")
    case True
    then show ?thesis by simp
  next
    case False
    from 1 [OF False, of "j + snd (DecodeRuneInString s)"] False show ?thesis
      by (subst range_string.simps, subst (2) range_string.simps) simp
  qed
qed

lemma ValidString_step:
  assumes "ValidString s" and "s \<noteq> []"
  shows "DecodeRuneInString s \<noteq> (RuneError, 1)"
    and "ValidString (drop (snd (DecodeRuneInString s)) s)"
  using assms by (subst (asm) ValidString.simps, simp split: if_splits)+

lemma range_string_append:
  "ValidString s \<Longrightarrow>
   range_string i (s @ t) = range_string i s @ range_string (i + length s) t"
proof (induction i s rule: range_string.induct)
  case (1 i s)
  show ?case
  proof (cases "s = []")
    case True
    then show ?thesis by simp
  next
    case False
    let ?n = "snd (DecodeRuneInString s)"
    from ValidString_step [OF "1.prems" False]
    have ok: "DecodeRuneInString s \<noteq> (RuneError, 1)" and v: "ValidString (drop ?n s)" .
    have d: "DecodeRuneInString (s @ t) = DecodeRuneInString s"
      using False ok by (rule decode_append)
    have le: "?n \<le> length s" using False by (rule decode_size_le)
    from "1.IH" [OF False v]
    have ih: "range_string (i + ?n) (drop ?n s @ t)
                = range_string (i + ?n) (drop ?n s) @ range_string (i + length s) t"
      using le by simp
    have "range_string i (s @ t)
            = (i, fst (DecodeRuneInString s)) # range_string (i + ?n) (drop ?n s @ t)"
      using False le by (subst range_string.simps) (simp add: d)
    also have "\<dots> = ((i, fst (DecodeRuneInString s)) # range_string (i + ?n) (drop ?n s))
                      @ range_string (i + length s) t"
      by (simp add: ih)
    also have "(i, fst (DecodeRuneInString s)) # range_string (i + ?n) (drop ?n s)
                 = range_string i s"
      using False by (subst (2) range_string.simps) simp
    finally show ?thesis .
  qed
qed

lemma encode_range_string:
  "ValidString s \<Longrightarrow> concat (map (\<lambda>p. utf8_encode (snd p)) (range_string i s)) = s"
proof (induction i s rule: range_string.induct)
  case (1 i s)
  show ?case
  proof (cases "s = []")
    case True
    then show ?thesis by simp
  next
    case False
    let ?n = "snd (DecodeRuneInString s)"
    from ValidString_step [OF "1.prems" False]
    have ok: "DecodeRuneInString s \<noteq> (RuneError, 1)" and v: "ValidString (drop ?n s)" .
    from encode_decode_step [OF False ok]
    have e: "utf8_encode (fst (DecodeRuneInString s)) = take ?n s" .
    from "1.IH" [OF False v]
    have ih: "concat (map (\<lambda>p. utf8_encode (snd p)) (range_string (i + ?n) (drop ?n s)))
                = drop ?n s" .
    show ?thesis
      using False by (subst range_string.simps) (simp add: e ih)
  qed
qed


lemma range_string_marker:
  "range_string i (utf8_encode 0xFFF9 @ t) = (i, 0xFFF9) # range_string (i + 3) t"
  "range_string i (utf8_encode 0xFFFA @ t) = (i, 0xFFFA) # range_string (i + 3) t"
  "range_string i (utf8_encode 0xFFFB @ t) = (i, 0xFFFB) # range_string (i + 3) t"
  by (subst range_string.simps, simp add: decode_markers, simp add: utf8_encode_markers)+

lemma range_string_end_marker:
  "range_string i (utf8_encode 0xFFFB) = [(i, 0xFFFB)]"
  using range_string_marker(3) [of i "[]"] by simp

lemma range_string_write_id:
  "\<exists>ms. range_string i (write_id j cid @ t) = ms @ range_string (i + 3 * nat (cid - j)) t
        \<and> (\<forall>p \<in> set ms. snd p = 0xFFFA) \<and> length ms = nat (cid - j)"
proof (induction j cid arbitrary: i rule: write_id.induct)
  case (1 j cid)
  show ?case
  proof (cases "j < cid")
    case False
    then show ?thesis by (subst write_id.simps) simp
  next
    case True
    from 1 [OF True, of "i + 3"] obtain ms where
      ms: "range_string (i + 3) (write_id (j + 1) cid @ t)
             = ms @ range_string (i + 3 + 3 * nat (cid - (j + 1))) t"
        "\<forall>p \<in> set ms. snd p = 0xFFFA" "length ms = nat (cid - (j + 1))"
      by blast
    from True have n: "nat (cid - j) = Suc (nat (cid - (j + 1)))" by simp
    have "range_string i (write_id j cid @ t)
            = ((i, 0xFFFA) # ms) @ range_string (i + 3 * nat (cid - j)) t"
      using True ms(1) n
      by (subst write_id.simps) (simp add: range_string_marker add.assoc)
    moreover have "\<forall>p \<in> set ((i, 0xFFFA) # ms). snd p = 0xFFFA" using ms(2) by simp
    moreover have "length ((i, 0xFFFA) # ms) = nat (cid - j)" using ms(3) n by simp
    ultimately show ?thesis by blast
  qed
qed

lemma strip_loop_plain:
  assumes "\<forall>p \<in> set rs. snd p \<noteq> 0xFFF9 \<and> snd p \<noteq> 0xFFFA \<and> snd p \<noteq> 0xFFFB"
    and "pid \<le> 0"
  shows "\<exists>prev' cur'. strip_loop rw (rs @ rest) cr prev cur stack pid sb
           = strip_loop rw rest cr prev' cur' stack pid
               (sb @ concat (map (\<lambda>p. utf8_encode (snd p)) rs))"
  using assms
proof (induction rs arbitrary: prev cur sb)
  case Nil
  then show ?case by auto
next
  case (Cons p rs)
  obtain i r where p: "p = (i, r)" by (cases p)
  from Cons.prems p have r: "r \<noteq> 0xFFF9" "r \<noteq> 0xFFFA" "r \<noteq> 0xFFFB" by auto
  from Cons.prems have rs: "\<forall>p \<in> set rs. snd p \<noteq> 0xFFF9 \<and> snd p \<noteq> 0xFFFA \<and> snd p \<noteq> 0xFFFB"
    by simp
  let ?cur = "(if r = 13 then cur\<lparr>cell_x := 0\<rparr>
              else if r = 10 then cur\<lparr>cell_x := 0, cell_y := cell_y cur + 1\<rparr>
              else cur\<lparr>cell_x := cell_x cur + rw r\<rparr>)"
  from Cons.IH [OF rs Cons.prems(2), of cur ?cur "sb @ utf8_encode r"]
  obtain prev' cur' where
    "strip_loop rw (rs @ rest) cr cur ?cur stack pid (sb @ utf8_encode r)
       = strip_loop rw rest cr prev' cur' stack pid
           ((sb @ utf8_encode r) @ concat (map (\<lambda>p. utf8_encode (snd p)) rs))"
    by blast
  moreover have "strip_loop rw ((p # rs) @ rest) cr prev cur stack pid sb
                   = strip_loop rw (rs @ rest) cr cur ?cur stack pid (sb @ utf8_encode r)"
    using r Cons.prems(2) by (simp add: p)
  ultimately show ?case by (auto simp: p)
qed

lemma strip_loop_ids:
  assumes "\<forall>p \<in> set ms. snd p = 0xFFFA" and "0 \<le> pid"
  shows "strip_loop rw (ms @ rest) cr prev cur stack pid sb
           = strip_loop rw rest cr prev cur stack (pid + int (length ms)) sb"
  using assms
proof (induction ms arbitrary: pid)
  case Nil
  then show ?case by simp
next
  case (Cons p ms)
  obtain i r where p: "p = (i, r)" by (cases p)
  with Cons.prems have r: "r = 0xFFFA" by simp
  from Cons.prems have "\<forall>p \<in> set ms. snd p = 0xFFFA" "0 \<le> pid + 1" by simp_all
  from Cons.IH [OF this] Cons.prems(2) show ?case by (simp add: p r add.assoc)
qed


lemma stableId_nonneg: "ids_ok cs \<Longrightarrow> 0 \<le> snd (stableId cs key)"
  by (auto simp: ids_ok_def stableId_def split: option.splits)

lemma stableId_generation: "currentGeneration (fst (stableId cs key)) = currentGeneration cs"
  by (simp add: stableId_def split: option.splits)

lemma ids_ok_make: "ids_ok makeClickableState"
  by (simp add: ids_ok_def makeClickableState_def)

lemma ids_ok_registerAndWrap: "ids_ok cs \<Longrightarrow> ids_ok (fst (registerAndWrap cs S K P))"
  by (auto simp: ids_ok_def registerAndWrap_def stableId_def Let_def split: option.splits)

lemma ids_ok_swap: "ids_ok cs \<Longrightarrow> ids_ok (swapDoubleBuffer cs)"
  by (simp add: ids_ok_def swapDoubleBuffer_def)

lemma strip_loop_ids_kept:
  "idCounter (fst (strip_loop rw rs cr prev cur stack pid sb)) = idCounter cr
   \<and> stableKeyMap (fst (strip_loop rw rs cr prev cur stack pid sb)) = stableKeyMap cr"
  by (induction rw rs cr prev cur stack pid sb rule: strip_loop.induct)
     (auto simp: Let_def split: option.splits)

lemma ids_ok_strip:
  "ids_ok cs \<Longrightarrow> ids_ok (fst (stripClickableSequencesFromFrame rw cs frame))"
  using strip_loop_ids_kept [of rw "range_string 0 frame" cs zero_cell zero_cell "[]" "- 1" "[]"]
  by (auto simp: ids_ok_def stripClickableSequencesFromFrame_def split: prod.splits option.splits)

text \<open>
  C5, as the code has it: for every well-formed UTF-8 string \<open>S\<close> with none of the marker
  runes \<open>U+FFF9\<close>, \<open>U+FFFA\<close>, \<open>U+FFFB\<close>, every key and every payload, on a registry whose
  ids are not negative, \<open>registerAndWrap\<close> and then \<open>stripClickableSequencesFromFrame\<close> on
  the wrapped text (no swap in between) returns exactly \<open>S\<close>.
\<close>

theorem strip_registerAndWrap_roundtrip:
  assumes valid: "ValidString S"
    and plain: "0xFFF9 \<notin> set (runes S) \<and> 0xFFFA \<notin> set (runes S) \<and> 0xFFFB \<notin> set (runes S)"
    and ids: "ids_ok cs"
  shows "snd (stripClickableSequencesFromFrame rw (fst (registerAndWrap cs S K P))
               (snd (registerAndWrap cs S K P))) = S"
proof -
  define cid where "cid = snd (stableId cs K)"
  define cr1 where "cr1 = fst (stableId cs K)"
  define e where "e = \<lparr>data = P, bounds = zero_bounds, generation = currentGeneration cr1 + 1\<rparr>"
  define cr2 where "cr2 = cr1\<lparr>nextRegistered := (nextRegistered cr1)(cid \<mapsto> e)\<rparr>"
  define frame where "frame = utf8_encode 0xFFF9 @ S @ write_id 0 cid @ utf8_encode 0xFFFB"
  have reg: "registerAndWrap cs S K P = (cr2, frame)"
    by (simp add: registerAndWrap_def Let_def cid_def cr1_def e_def cr2_def frame_def)
  from ids have cid: "0 \<le> cid" unfolding cid_def by (rule stableId_nonneg)
  have look: "nextRegistered cr2 cid = Some e" by (simp add: cr2_def)
  have gen: "generation e = currentGeneration cr2 + 1" by (simp add: e_def cr2_def)
  let ?RS = "range_string 3 S"
  from range_string_write_id [of "3 + length S" 0 cid "utf8_encode 0xFFFB"]
  obtain ms where ms:
    "range_string (3 + length S) (write_id 0 cid @ utf8_encode 0xFFFB)
       = ms @ range_string (3 + length S + 3 * nat (cid - 0)) (utf8_encode 0xFFFB)"
    "\<forall>p \<in> set ms. snd p = 0xFFFA" "length ms = nat (cid - 0)"
    by blast
  let ?i = "3 + length S + 3 * nat (cid - 0)"
  have endm: "range_string ?i (utf8_encode 0xFFFB) = [(?i, 0xFFFB)]"
    by (rule range_string_end_marker)
  have rs: "range_string 0 frame = (0, 0xFFF9) # ?RS @ ms @ [(?i, 0xFFFB)]"
    unfolding frame_def
    by (simp add: range_string_marker range_string_append [OF valid] ms(1)
          range_string_end_marker)
  have "map snd ?RS = runes S" unfolding runes_def by (rule range_string_runes)
  with plain have pl: "\<forall>p \<in> set ?RS. snd p \<noteq> 0xFFF9 \<and> snd p \<noteq> 0xFFFA \<and> snd p \<noteq> 0xFFFB"
    by (metis (no_types, lifting) image_eqI list.set_map)
  let ?b = "\<lparr>start = zero_cell, end_cell = zero_cell, sequencePosition = 0\<rparr>"
  have stripped: "concat (map (\<lambda>p. utf8_encode (snd p)) ?RS) = S"
    using valid by (rule encode_range_string)
  have st0: "strip_loop rw ((0, 0xFFF9) # ?RS @ ms @ [(?i, 0xFFFB)]) cr2 zero_cell zero_cell
               [] (- 1) []
             = strip_loop rw (?RS @ ms @ [(?i, 0xFFFB)]) cr2 zero_cell zero_cell [?b] 0 []"
    by simp
  from strip_loop_plain [OF pl, of 0 rw "ms @ [(?i, 0xFFFB)]" cr2 zero_cell zero_cell "[?b]" "[]"]
  obtain prev' cur' where
    "strip_loop rw (?RS @ ms @ [(?i, 0xFFFB)]) cr2 zero_cell zero_cell [?b] 0 []
            = strip_loop rw (ms @ [(?i, 0xFFFB)]) cr2 prev' cur' [?b] 0
                ([] @ concat (map (\<lambda>p. utf8_encode (snd p)) ?RS))"
    by auto
  then have st1: "strip_loop rw (?RS @ ms @ [(?i, 0xFFFB)]) cr2 zero_cell zero_cell [?b] 0 []
            = strip_loop rw (ms @ [(?i, 0xFFFB)]) cr2 prev' cur' [?b] 0 S"
    by (simp only: stripped append_Nil)
  have pid: "0 + int (length ms) = cid" using ms(3) cid by simp
  have "strip_loop rw (ms @ [(?i, 0xFFFB)]) cr2 prev' cur' [?b] 0 S
               = strip_loop rw [(?i, 0xFFFB)] cr2 prev' cur' [?b] (0 + int (length ms)) S"
    using ms(2) by (rule strip_loop_ids) simp
  then have st2: "strip_loop rw (ms @ [(?i, 0xFFFB)]) cr2 prev' cur' [?b] 0 S
               = strip_loop rw [(?i, 0xFFFB)] cr2 prev' cur' [?b] cid S"
    by (simp only: pid)
  have st3: "snd (strip_loop rw [(?i, 0xFFFB)] cr2 prev' cur' [?b] cid S) = Some S"
    using look gen by simp
  have "snd (strip_loop rw (range_string 0 frame) cr2 zero_cell zero_cell [] (- 1) []) = Some S"
    by (simp only: rs st0 st1 st2 st3)
  then show ?thesis
    unfolding reg
    by (cases "strip_loop rw (range_string 0 frame) cr2 zero_cell zero_cell [] (- 1) []")
       (simp add: stripClickableSequencesFromFrame_def)
qed

theorem strip_registerAndWrap_roundtrip_witness:
  "snd (stripClickableSequencesFromFrame width_ascii
          (fst (registerAndWrap makeClickableState ''here'' ''link-1'' (Some ''DATA-1'')))
          (snd (registerAndWrap makeClickableState ''here'' ''link-1'' (Some ''DATA-1''))))
     = ''here''"
proof -
  have v: "ValidString ''here''" by code_simp
  have p: "0xFFF9 \<notin> set (runes ''here'') \<and> 0xFFFA \<notin> set (runes ''here'')
           \<and> 0xFFFB \<notin> set (runes ''here'')"
    by code_simp
  from strip_registerAndWrap_roundtrip [OF v p ids_ok_make]
  show ?thesis .
qed

text \<open>C5 as stated fails on a string that is not well-formed UTF-8: the one byte \<open>0xFF\<close>
  holds no marker rune (\<^verbatim>\<open>range\<close> reads it as \<open>U+FFFD\<close>), and comes back as the three
  bytes that encode \<open>U+FFFD\<close>.\<close>

theorem strip_registerAndWrap_counterexample:
  "snd (stripClickableSequencesFromFrame width_ascii
          (fst (registerAndWrap makeClickableState [CHR 0xFF] ''link-1'' (Some ''DATA-1'')))
          (snd (registerAndWrap makeClickableState [CHR 0xFF] ''link-1'' (Some ''DATA-1''))))
     = [CHR 0xEF, CHR 0xBF, CHR 0xBD]
   \<and> runes [CHR 0xFF] = [0xFFFD]"
  by code_simp

subsection \<open>The clickable under a cell\<close>

text \<open>\<^verbatim>\<open>containsPoint\<close> is containment in reading order.\<close>

lemma containsPoint_contains_cell:
  "containsPoint b \<lparr>cell_x = x, cell_y = y\<rparr> = contains_cell b x y"
  by (auto simp: containsPoint_def contains_cell_def cell_le_def)

lemma hit_clickable_at: "hit cs \<lparr>cell_x = x, cell_y = y\<rparr> c = clickable_at cs x y c"
  by (simp add: hit_def clickable_at_def containsPoint_contains_cell)

text \<open>The two frames with overlapping clickables: what their runes are and what the strip
  records for them.\<close>

lemma overdraw_runes:
  "range_string 0 overdraw_frame
   = [(0, 0xFFF9), (3, 97), (4, 98), (5, 0xFFFB), (8, 13), (9, 0xFFF9), (12, 99),
      (13, 0xFFFA), (16, 0xFFFB)]"
  by code_simp

lemma overdraw_run_registered:
  "currentRegistered overdraw_run =
     [0 \<mapsto> \<lparr>data = Some ''DATA-1'',
             bounds = \<lparr>start = \<lparr>cell_x = 0, cell_y = 0\<rparr>, end_cell = \<lparr>cell_x = 1, cell_y = 0\<rparr>,
                       sequencePosition = 0\<rparr>,
             generation = 1\<rparr>,
      1 \<mapsto> \<lparr>data = Some ''DATA-2'',
             bounds = \<lparr>start = \<lparr>cell_x = 0, cell_y = 0\<rparr>, end_cell = \<lparr>cell_x = 0, cell_y = 0\<rparr>,
                       sequencePosition = 9\<rparr>,
             generation = 1\<rparr>]"
  by (simp add: overdraw_run_def stripClickableSequencesFromFrame_def overdraw_runes
        overdraw_b_def overdraw_a_def registerAndWrap_def stableId_def makeClickableState_def
        swapDoubleBuffer_def Let_def zero_cell_def zero_bounds_def width_ascii_def
        fun_upd_twist)

lemma overdraw_run_generation: "currentGeneration overdraw_run = 1"
  by code_simp

lemma nested_runes:
  "range_string 0 nested_frame
   = [(0, 67), (1, 108), (2, 105), (3, 99), (4, 107), (5, 32), (6, 109),
      (7, 101), (8, 32), (9, 0xFFF9), (12, 104), (13, 101), (14, 114), (15, 101),
      (16, 32), (17, 111), (18, 114), (19, 32), (20, 0xFFF9), (23, 104),
      (24, 101), (25, 114), (26, 101), (27, 0xFFFB), (30, 0xFFFA), (33, 0xFFFB),
      (36, 32), (37, 112), (38, 108), (39, 101), (40, 97), (41, 115), (42, 101)]"
  by code_simp

lemma nested_run_registered:
  "currentRegistered nested_run =
     [0 \<mapsto> \<lparr>data = Some ''inner-data'',
             bounds = \<lparr>start = \<lparr>cell_x = 17, cell_y = 0\<rparr>, end_cell = \<lparr>cell_x = 20, cell_y = 0\<rparr>,
                       sequencePosition = 20\<rparr>,
             generation = 1\<rparr>,
      1 \<mapsto> \<lparr>data = Some ''outer-data'',
             bounds = \<lparr>start = \<lparr>cell_x = 9, cell_y = 0\<rparr>, end_cell = \<lparr>cell_x = 20, cell_y = 0\<rparr>,
                       sequencePosition = 9\<rparr>,
             generation = 1\<rparr>]"
  by (simp add: nested_run_def stripClickableSequencesFromFrame_def nested_runes
        nested_outer_def nested_inner_def registerAndWrap_def stableId_def makeClickableState_def
        swapDoubleBuffer_def Let_def zero_cell_def zero_bounds_def width_ascii_def
        fun_upd_twist)

lemma nested_run_generation: "currentGeneration nested_run = 1"
  by code_simp

text \<open>The strip of one wrapped clickable: between its opening marker at byte \<open>i\<close> and its
  closing marker the loop reads the text and counts the id, and at the closing marker it
  stores the bounds that the opening marker pushed, with \<open>sequencePosition\<close> \<open>i\<close>.\<close>

lemma marker_free_range_string:
  assumes "marker_free t"
  shows "\<forall>p \<in> set (range_string i t). snd p \<noteq> 0xFFF9 \<and> snd p \<noteq> 0xFFFA \<and> snd p \<noteq> 0xFFFB"
proof -
  have "map snd (range_string i t) = runes t" unfolding runes_def by (rule range_string_runes)
  with assms show ?thesis
    unfolding marker_free_def by (metis (no_types, lifting) image_eqI list.set_map)
qed

lemma strip_loop_segment:
  assumes plain: "\<forall>p \<in> set RS. snd p \<noteq> 0xFFF9 \<and> snd p \<noteq> 0xFFFA \<and> snd p \<noteq> 0xFFFB"
    and ids: "\<forall>p \<in> set ms. snd p = 0xFFFA"
    and look: "nextRegistered cr (int (length ms)) = Some e"
    and gen: "generation e = currentGeneration cr + 1"
    and after: "pid' = (if stack = [] then - 1 else 0)"
  shows "\<exists>prev' cur'.
           strip_loop rw ((i, 0xFFF9) # RS @ ms @ (j, 0xFFFB) # rest) cr prev cur stack pid sb
           = strip_loop rw rest
               (cr\<lparr>nextRegistered :=
                     (nextRegistered cr)
                       (int (length ms) \<mapsto>
                          e\<lparr>bounds := \<lparr>start = cur, end_cell = prev',
                                       sequencePosition = int i\<rparr>\<rparr>)\<rparr>)
               prev' cur' stack pid'
               (sb @ concat (map (\<lambda>p. utf8_encode (snd p)) RS))"
proof -
  let ?b = "\<lparr>start = cur, end_cell = zero_cell, sequencePosition = int i\<rparr>"
  have st0: "strip_loop rw ((i, 0xFFF9) # RS @ ms @ (j, 0xFFFB) # rest) cr prev cur stack pid sb
             = strip_loop rw (RS @ ms @ (j, 0xFFFB) # rest) cr prev cur (stack @ [?b]) 0 sb"
    by simp
  from strip_loop_plain [OF plain, of 0 rw "ms @ (j, 0xFFFB) # rest" cr prev cur "stack @ [?b]" sb]
  obtain prev' cur' where
    st1: "strip_loop rw (RS @ ms @ (j, 0xFFFB) # rest) cr prev cur (stack @ [?b]) 0 sb
            = strip_loop rw (ms @ (j, 0xFFFB) # rest) cr prev' cur' (stack @ [?b]) 0
                (sb @ concat (map (\<lambda>p. utf8_encode (snd p)) RS))"
    by auto
  have "strip_loop rw (ms @ (j, 0xFFFB) # rest) cr prev' cur' (stack @ [?b]) 0
                (sb @ concat (map (\<lambda>p. utf8_encode (snd p)) RS))
        = strip_loop rw ((j, 0xFFFB) # rest) cr prev' cur' (stack @ [?b]) (0 + int (length ms))
                (sb @ concat (map (\<lambda>p. utf8_encode (snd p)) RS))"
    using ids by (rule strip_loop_ids) simp
  then have st2: "strip_loop rw (ms @ (j, 0xFFFB) # rest) cr prev' cur' (stack @ [?b]) 0
                (sb @ concat (map (\<lambda>p. utf8_encode (snd p)) RS))
        = strip_loop rw ((j, 0xFFFB) # rest) cr prev' cur' (stack @ [?b]) (int (length ms))
                (sb @ concat (map (\<lambda>p. utf8_encode (snd p)) RS))"
    by simp
  have st3: "strip_loop rw ((j, 0xFFFB) # rest) cr prev' cur' (stack @ [?b]) (int (length ms))
                (sb @ concat (map (\<lambda>p. utf8_encode (snd p)) RS))
        = strip_loop rw rest
               (cr\<lparr>nextRegistered :=
                     (nextRegistered cr)
                       (int (length ms) \<mapsto>
                          e\<lparr>bounds := \<lparr>start = cur, end_cell = prev',
                                       sequencePosition = int i\<rparr>\<rparr>)\<rparr>)
               prev' cur' stack pid'
               (sb @ concat (map (\<lambda>p. utf8_encode (snd p)) RS))"
    using look gen after by (simp add: Let_def nth_append)
  show ?thesis unfolding st0 st1 st2 st3 by blast
qed


lemma wrapped_runes:
  assumes "ValidString S" and "0 \<le> cid"
  shows "\<exists>ms j. range_string i (utf8_encode 0xFFF9 @ S @ write_id 0 cid @ utf8_encode 0xFFFB @ t)
                  = (i, 0xFFF9) # range_string (i + 3) S @ ms @ (j, 0xFFFB) # range_string (j + 3) t
               \<and> (\<forall>p \<in> set ms. snd p = 0xFFFA) \<and> int (length ms) = cid
               \<and> j = i + 3 + length S + 3 * nat cid"
proof -
  from range_string_write_id [of "i + 3 + length S" 0 cid "utf8_encode 0xFFFB @ t"]
  obtain ms where ms:
    "range_string (i + 3 + length S) (write_id 0 cid @ utf8_encode 0xFFFB @ t)
       = ms @ range_string (i + 3 + length S + 3 * nat (cid - 0)) (utf8_encode 0xFFFB @ t)"
    "\<forall>p \<in> set ms. snd p = 0xFFFA" "length ms = nat (cid - 0)"
    by blast
  have "range_string i (utf8_encode 0xFFF9 @ S @ write_id 0 cid @ utf8_encode 0xFFFB @ t)
          = (i, 0xFFF9) # range_string (i + 3) S @ ms
              @ (i + 3 + length S + 3 * nat cid, 0xFFFB)
              # range_string (i + 3 + length S + 3 * nat cid + 3) t"
    by (simp add: range_string_marker range_string_append [OF assms(1)] ms(1))
  moreover from ms(3) assms(2) have "int (length ms) = cid" by simp
  ultimately show ?thesis using ms(2) by blast
qed

lemma strip_single_position:
  assumes vp: "ValidString pre" and vS: "ValidString S"
    and fp: "marker_free pre" and fS: "marker_free S" and fq: "marker_free post"
    and ids: "ids_ok cs"
  shows "\<exists>c. nextRegistered
               (fst (stripClickableSequencesFromFrame rw (fst (registerAndWrap cs S K P))
                      (pre @ snd (registerAndWrap cs S K P) @ post)))
               (snd (stableId cs K)) = Some c
             \<and> data c = P \<and> generation c = currentGeneration cs + 1
             \<and> sequencePosition (bounds c) = int (length pre)
             \<and> currentGeneration
                 (fst (stripClickableSequencesFromFrame rw (fst (registerAndWrap cs S K P))
                        (pre @ snd (registerAndWrap cs S K P) @ post)))
               = currentGeneration cs"
proof -
  define cid where "cid = snd (stableId cs K)"
  define cr1 where "cr1 = fst (stableId cs K)"
  define e where "e = \<lparr>data = P, bounds = zero_bounds, generation = currentGeneration cr1 + 1\<rparr>"
  define cr2 where "cr2 = cr1\<lparr>nextRegistered := (nextRegistered cr1)(cid \<mapsto> e)\<rparr>"
  define W where "W = utf8_encode 0xFFF9 @ S @ write_id 0 cid @ utf8_encode 0xFFFB"
  have reg: "registerAndWrap cs S K P = (cr2, W)"
    by (simp add: registerAndWrap_def Let_def cid_def cr1_def e_def cr2_def W_def)
  from ids have cid: "0 \<le> cid" unfolding cid_def by (rule stableId_nonneg)
  have g1: "currentGeneration cr1 = currentGeneration cs"
    unfolding cr1_def by (rule stableId_generation)
  from wrapped_runes [OF vS cid, of "length pre" post]
  obtain ms j where ms:
    "range_string (length pre) (utf8_encode 0xFFF9 @ S @ write_id 0 cid @ utf8_encode 0xFFFB @ post)
       = (length pre, 0xFFF9) # range_string (length pre + 3) S @ ms
           @ (j, 0xFFFB) # range_string (j + 3) post"
    "\<forall>p \<in> set ms. snd p = 0xFFFA" "int (length ms) = cid"
    by blast
  have le: "(- 1 :: int) \<le> 0" by simp
  have pe: "(- 1 :: int) = (if ([] :: clickableBounds list) = [] then - 1 else 0)" by simp
  let ?PR = "range_string 0 pre"
  let ?RS = "range_string (length pre + 3) S"
  let ?QS = "range_string (j + 3) post"
  have rs: "range_string 0 (pre @ W @ post)
              = ?PR @ (length pre, 0xFFF9) # ?RS @ ms @ (j, 0xFFFB) # ?QS"
    unfolding W_def using ms(1) by (simp add: range_string_append [OF vp])
  have look: "nextRegistered cr2 (int (length ms)) = Some e" by (simp add: cr2_def ms(3))
  have gen: "generation e = currentGeneration cr2 + 1" by (simp add: e_def cr2_def)
  from strip_loop_plain [where pid = "- 1" and rw = rw and cr = cr2 and prev = zero_cell
         and cur = zero_cell and stack = "[]" and sb = "[]"
         and rest = "(length pre, 0xFFF9) # ?RS @ ms @ (j, 0xFFFB) # ?QS",
         OF marker_free_range_string [OF fp, of 0] le]
  obtain p1 c1 where
    s1: "strip_loop rw (?PR @ (length pre, 0xFFF9) # ?RS @ ms @ (j, 0xFFFB) # ?QS) cr2
            zero_cell zero_cell [] (- 1) []
         = strip_loop rw ((length pre, 0xFFF9) # ?RS @ ms @ (j, 0xFFFB) # ?QS) cr2 p1 c1 [] (- 1)
             ([] @ concat (map (\<lambda>p. utf8_encode (snd p)) ?PR))"
    by blast
  from strip_loop_segment [where rw = rw and i = "length pre" and j = j and rest = ?QS
         and prev = p1 and cur = c1 and stack = "[]" and pid = "- 1" and pid' = "- 1"
         and sb = "[] @ concat (map (\<lambda>p. utf8_encode (snd p)) ?PR)",
         OF marker_free_range_string [OF fS, of "length pre + 3"] ms(2) look gen pe]
  obtain p2 c2 where
    s2: "strip_loop rw ((length pre, 0xFFF9) # ?RS @ ms @ (j, 0xFFFB) # ?QS) cr2 p1 c1 [] (- 1)
             ([] @ concat (map (\<lambda>p. utf8_encode (snd p)) ?PR))
         = strip_loop rw ?QS
             (cr2\<lparr>nextRegistered :=
                     (nextRegistered cr2)
                       (int (length ms) \<mapsto>
                          e\<lparr>bounds := \<lparr>start = c1, end_cell = p2,
                                       sequencePosition = int (length pre)\<rparr>\<rparr>)\<rparr>)
             p2 c2 [] (- 1)
             (([] @ concat (map (\<lambda>p. utf8_encode (snd p)) ?PR))
                @ concat (map (\<lambda>p. utf8_encode (snd p)) ?RS))"
    by blast
  let ?cr3 = "cr2\<lparr>nextRegistered :=
                     (nextRegistered cr2)
                       (int (length ms) \<mapsto>
                          e\<lparr>bounds := \<lparr>start = c1, end_cell = p2,
                                       sequencePosition = int (length pre)\<rparr>\<rparr>)\<rparr>"
  let ?sb = "([] @ concat (map (\<lambda>p. utf8_encode (snd p)) ?PR))
                @ concat (map (\<lambda>p. utf8_encode (snd p)) ?RS)"
  from strip_loop_plain [where pid = "- 1" and rw = rw and cr = ?cr3 and prev = p2
         and cur = c2 and stack = "[]" and sb = ?sb and rest = "[]",
         OF marker_free_range_string [OF fq, of "j + 3"] le]
  obtain p3 c3 where
    s3: "strip_loop rw ?QS ?cr3 p2 c2 [] (- 1) ?sb
         = strip_loop rw [] ?cr3 p3 c3 [] (- 1)
             (?sb @ concat (map (\<lambda>p. utf8_encode (snd p)) ?QS))"
    by (metis append_Nil2)
  have "fst (strip_loop rw (range_string 0 (pre @ W @ post)) cr2 zero_cell zero_cell [] (- 1) [])
          = ?cr3"
    unfolding rs s1 s2 s3 by simp
  then have "fst (stripClickableSequencesFromFrame rw cr2 (pre @ W @ post)) = ?cr3"
    by (cases "strip_loop rw (range_string 0 (pre @ W @ post)) cr2 zero_cell zero_cell [] (- 1) []")
       (auto simp: stripClickableSequencesFromFrame_def split: option.splits)
  then show ?thesis
    unfolding reg cid_def [symmetric] by (simp add: ms(3) e_def g1 cr2_def)
qed

text \<open>
  C6: for every cell \<open>(x, y)\<close> and every order in which the loop visits the keys (sequence
  positions being byte offsets, so not negative): when some entry of the current generation
  has bounds that contain the cell, \<open>getClicked\<close> returns the payload of such an entry whose
  \<open>sequencePosition\<close> is largest among them, and \<open>nil\<close> when none contains it. Containment
  is that of the specification, between the start cell and the end cell in reading order;
  \<^verbatim>\<open>containsPoint\<close> decides exactly that, and holds at the start cell and at the end cell.
  The \<open>sequencePosition\<close> that the strip records for a clickable and the swap makes current
  is the byte offset of its opening marker: for a clickable wrapped around a text \<open>S\<close> and
  placed after a text \<open>pre\<close> (both well-formed UTF-8, and \<open>pre\<close>, \<open>S\<close> and the text after
  it without marker runes), the frame has the opening marker at byte \<open>length pre\<close>, and the
  entry has that \<open>sequencePosition\<close>, the payload registered and the current generation.
\<close>

theorem getClicked_topmost:
  assumes order: "set order = dom (currentRegistered cs)"
    and nonneg: "\<forall>k c. currentRegistered cs k = Some c \<longrightarrow> 0 \<le> sequencePosition (bounds c)"
  shows "(if \<exists>c. clickable_at cs x y c
          then \<exists>c. clickable_at cs x y c \<and> getClicked order cs x y = data c
                 \<and> (\<forall>c'. clickable_at cs x y c'
                       \<longrightarrow> sequencePosition (bounds c') \<le> sequencePosition (bounds c))
          else getClicked order cs x y = None)
         \<and> containsPoint b \<lparr>cell_x = x, cell_y = y\<rparr> = contains_cell b x y
         \<and> (cell_le (start b) (end_cell b)
              \<longrightarrow> containsPoint b (start b) \<and> containsPoint b (end_cell b))
         \<and> (ValidString pre \<and> ValidString S \<and> marker_free pre \<and> marker_free S
              \<and> marker_free post \<and> ids_ok cs0
              \<longrightarrow> (\<exists>t. pre @ snd (registerAndWrap cs0 S K P) @ post
                          = pre @ utf8_encode 0xFFF9 @ t)
                  \<and> (\<exists>c. currentRegistered
                             (swapDoubleBuffer
                                (fst (stripClickableSequencesFromFrame rw
                                        (fst (registerAndWrap cs0 S K P))
                                        (pre @ snd (registerAndWrap cs0 S K P) @ post))))
                             (snd (stableId cs0 K)) = Some c
                           \<and> data c = P
                           \<and> generation c
                               = currentGeneration
                                   (swapDoubleBuffer
                                      (fst (stripClickableSequencesFromFrame rw
                                              (fst (registerAndWrap cs0 S K P))
                                              (pre @ snd (registerAndWrap cs0 S K P) @ post))))
                           \<and> sequencePosition (bounds c) = int (length pre)))"
proof -
  let ?p = "\<lparr>cell_x = x, cell_y = y\<rparr>"
  let ?res = "getClicked_loop cs ?p zero_clickable order"
  have incl: "cell_le (start b) (end_cell b)
              \<longrightarrow> containsPoint b (start b) \<and> containsPoint b (end_cell b)"
    by (auto simp: cell_le_def containsPoint_def)
  have main: "if \<exists>c. hit cs ?p c
          then \<exists>c. hit cs ?p c \<and> getClicked order cs x y = data c
                 \<and> (\<forall>c'. hit cs ?p c'
                       \<longrightarrow> sequencePosition (bounds c') \<le> sequencePosition (bounds c))
          else getClicked order cs x y = None"
  proof (cases "\<exists>c. hit cs ?p c")
    case True
    then obtain c k where c: "currentRegistered cs k = Some c"
      "generation c = currentGeneration cs" "containsPoint (bounds c) ?p"
      by (auto simp: hit_def)
    from c(1) order have k: "k \<in> set order" by auto
    from nonneg c(1) have "sequencePosition (bounds (zero_clickable :: 'a clickable))
                             \<le> sequencePosition (bounds c)"
      by (simp add: zero_clickable_def zero_bounds_def)
    from getClicked_loop_finds [OF k c this] have h: "hit cs ?p ?res" .
    have "\<forall>c'. hit cs ?p c' \<longrightarrow> sequencePosition (bounds c') \<le> sequencePosition (bounds ?res)"
    proof (intro allI impI)
      fix c' assume "hit cs ?p c'"
      then obtain k' where c': "currentRegistered cs k' = Some c'"
        "generation c' = currentGeneration cs" "containsPoint (bounds c') ?p"
        by (auto simp: hit_def)
      from c'(1) order have "k' \<in> set order" by auto
      from getClicked_loop_max [OF this c']
      show "sequencePosition (bounds c') \<le> sequencePosition (bounds ?res)" .
    qed
    with h True show ?thesis by (auto simp: getClicked_def)
  next
    case False
    with getClicked_loop_result [of cs ?p zero_clickable order]
    have "?res = zero_clickable" by auto
    with False show ?thesis by (simp add: getClicked_def zero_clickable_def)
  qed
  have tie: "ValidString pre \<and> ValidString S \<and> marker_free pre \<and> marker_free S
              \<and> marker_free post \<and> ids_ok cs0
              \<longrightarrow> (\<exists>t. pre @ snd (registerAndWrap cs0 S K P) @ post
                          = pre @ utf8_encode 0xFFF9 @ t)
                  \<and> (\<exists>c. currentRegistered
                             (swapDoubleBuffer
                                (fst (stripClickableSequencesFromFrame rw
                                        (fst (registerAndWrap cs0 S K P))
                                        (pre @ snd (registerAndWrap cs0 S K P) @ post))))
                             (snd (stableId cs0 K)) = Some c
                           \<and> data c = P
                           \<and> generation c
                               = currentGeneration
                                   (swapDoubleBuffer
                                      (fst (stripClickableSequencesFromFrame rw
                                              (fst (registerAndWrap cs0 S K P))
                                              (pre @ snd (registerAndWrap cs0 S K P) @ post))))
                           \<and> sequencePosition (bounds c) = int (length pre))"
  proof (intro impI conjI)
    show "\<exists>t. pre @ snd (registerAndWrap cs0 S K P) @ post = pre @ utf8_encode 0xFFF9 @ t"
      by (simp add: registerAndWrap_def Let_def)
  next
    assume a: "ValidString pre \<and> ValidString S \<and> marker_free pre \<and> marker_free S
              \<and> marker_free post \<and> ids_ok cs0"
    from a have "ValidString pre" "ValidString S" "marker_free pre" "marker_free S"
      "marker_free post" "ids_ok cs0" by simp_all
    from strip_single_position [OF this, of rw K P]
    show "\<exists>c. currentRegistered
                             (swapDoubleBuffer
                                (fst (stripClickableSequencesFromFrame rw
                                        (fst (registerAndWrap cs0 S K P))
                                        (pre @ snd (registerAndWrap cs0 S K P) @ post))))
                             (snd (stableId cs0 K)) = Some c
                           \<and> data c = P
                           \<and> generation c
                               = currentGeneration
                                   (swapDoubleBuffer
                                      (fst (stripClickableSequencesFromFrame rw
                                              (fst (registerAndWrap cs0 S K P))
                                              (pre @ snd (registerAndWrap cs0 S K P) @ post))))
                           \<and> sequencePosition (bounds c) = int (length pre)"
      by (auto simp: swapDoubleBuffer_def)
  qed
  from main have main': "if \<exists>c. clickable_at cs x y c
          then \<exists>c. clickable_at cs x y c \<and> getClicked order cs x y = data c
                 \<and> (\<forall>c'. clickable_at cs x y c'
                       \<longrightarrow> sequencePosition (bounds c') \<le> sequencePosition (bounds c))
          else getClicked order cs x y = None"
    unfolding hit_clickable_at .
  from main' incl tie containsPoint_contains_cell [of b x y] show ?thesis by blast
qed

theorem getClicked_topmost_witness:
  "getClicked [0, 1] nested_run 8 0 = None
   \<and> getClicked [0, 1] nested_run 10 0 = Some ''outer-data''
   \<and> getClicked [0, 1] nested_run 17 0 = Some ''inner-data''
   \<and> getClicked [0, 1] nested_run 20 0 = Some ''inner-data''
   \<and> getClicked [1, 0] nested_run 20 0 = Some ''inner-data''
   \<and> getClicked [0, 1] nested_run 21 0 = None
   \<and> getClicked [0, 1] overdraw_run 0 0 = Some ''DATA-2''
   \<and> getClicked [1, 0] overdraw_run 0 0 = Some ''DATA-2''
   \<and> getClicked [1, 0] overdraw_run 1 0 = Some ''DATA-1''
   \<and> (\<exists>c. currentRegistered
              (swapDoubleBuffer
                 (fst (stripClickableSequencesFromFrame width_ascii
                         (fst (registerAndWrap makeClickableState ''here'' ''link-1''
                                 (Some ''DATA-1'')))
                         (''Click me '' @ snd (registerAndWrap makeClickableState ''here''
                                                ''link-1'' (Some ''DATA-1'')) @ '' please''))))
              0 = Some c
            \<and> data c = Some ''DATA-1'' \<and> sequencePosition (bounds c) = 9)"
proof -
  let ?inner = "\<lparr>data = Some ''inner-data'',
             bounds = \<lparr>start = \<lparr>cell_x = 17, cell_y = 0\<rparr>, end_cell = \<lparr>cell_x = 20, cell_y = 0\<rparr>,
                       sequencePosition = 20\<rparr>,
             generation = 1\<rparr>"
  let ?outer = "\<lparr>data = Some ''outer-data'',
             bounds = \<lparr>start = \<lparr>cell_x = 9, cell_y = 0\<rparr>, end_cell = \<lparr>cell_x = 20, cell_y = 0\<rparr>,
                       sequencePosition = 9\<rparr>,
             generation = 1\<rparr>"
  let ?first = "\<lparr>data = Some ''DATA-1'',
             bounds = \<lparr>start = \<lparr>cell_x = 0, cell_y = 0\<rparr>, end_cell = \<lparr>cell_x = 1, cell_y = 0\<rparr>,
                       sequencePosition = 0\<rparr>,
             generation = 1\<rparr>"
  let ?second = "\<lparr>data = Some ''DATA-2'',
             bounds = \<lparr>start = \<lparr>cell_x = 0, cell_y = 0\<rparr>, end_cell = \<lparr>cell_x = 0, cell_y = 0\<rparr>,
                       sequencePosition = 9\<rparr>,
             generation = 1\<rparr>"
  have pick: "getClicked ord cs x y = data c"
    if "set ord = dom (currentRegistered cs)"
      and "\<forall>k c. currentRegistered cs k = Some c \<longrightarrow> 0 \<le> sequencePosition (bounds c)"
      and "clickable_at cs x y c"
      and "\<forall>c'. clickable_at cs x y c'
             \<longrightarrow> c' = c \<or> sequencePosition (bounds c') < sequencePosition (bounds c)"
    for ord x y and cs :: "string clickableState" and c
  proof -
    from getClicked_topmost [OF that(1,2), of x y, THEN conjunct1] that(3)
    obtain d where d: "clickable_at cs x y d" "getClicked ord cs x y = data d"
      "\<forall>c'. clickable_at cs x y c'
          \<longrightarrow> sequencePosition (bounds c') \<le> sequencePosition (bounds d)"
      by (metis (no_types, lifting))
    from d(3) that(3) have "sequencePosition (bounds c) \<le> sequencePosition (bounds d)" by blast
    with that(4) d(1) have "d = c" by fastforce
    with d(2) show ?thesis by simp
  qed
  have none: "getClicked ord cs x y = None"
    if "set ord = dom (currentRegistered cs)"
      and "\<forall>k c. currentRegistered cs k = Some c \<longrightarrow> 0 \<le> sequencePosition (bounds c)"
      and "\<not> (\<exists>c. clickable_at cs x y c)"
    for ord x y and cs :: "string clickableState"
    using getClicked_topmost [OF that(1,2), of x y, THEN conjunct1] that(3) by simp
  have dn: "set [0, 1] = dom (currentRegistered nested_run)"
    "set [1, 0] = dom (currentRegistered nested_run)"
    by (auto simp: nested_run_registered)
  have nn: "\<forall>k c. currentRegistered nested_run k = Some c \<longrightarrow> 0 \<le> sequencePosition (bounds c)"
    by (auto simp: nested_run_registered split: if_splits)
  have N: "clickable_at nested_run x 0 c
             \<longleftrightarrow> (c = ?inner \<and> 17 \<le> x \<and> x \<le> 20) \<or> (c = ?outer \<and> 9 \<le> x \<and> x \<le> 20)"
    for x c
    unfolding clickable_at_def nested_run_registered nested_run_generation
    by (auto simp: contains_cell_def cell_le_def split: if_splits
          intro: exI [of _ 0] exI [of _ 1])
  have dv: "set [0, 1] = dom (currentRegistered overdraw_run)"
    "set [1, 0] = dom (currentRegistered overdraw_run)"
    by (auto simp: overdraw_run_registered)
  have no: "\<forall>k c. currentRegistered overdraw_run k = Some c \<longrightarrow> 0 \<le> sequencePosition (bounds c)"
    by (auto simp: overdraw_run_registered split: if_splits)
  have O: "clickable_at overdraw_run x 0 c
             \<longleftrightarrow> (c = ?first \<and> 0 \<le> x \<and> x \<le> 1) \<or> (c = ?second \<and> x = 0)"
    for x c
    unfolding clickable_at_def overdraw_run_registered overdraw_run_generation
    by (auto simp: contains_cell_def cell_le_def split: if_splits
          intro: exI [of _ 0] exI [of _ 1])
  have "getClicked [0, 1] nested_run 8 0 = None"
    by (rule none [OF dn(1) nn]) (simp add: N)
  moreover have "getClicked [0, 1] nested_run 10 0 = data ?outer"
    by (rule pick [OF dn(1) nn]) (simp_all add: N)
  moreover have "getClicked [0, 1] nested_run 17 0 = data ?inner"
    by (rule pick [OF dn(1) nn]) (auto simp: N)
  moreover have "getClicked [0, 1] nested_run 20 0 = data ?inner"
    by (rule pick [OF dn(1) nn]) (auto simp: N)
  moreover have "getClicked [1, 0] nested_run 20 0 = data ?inner"
    by (rule pick [OF dn(2) nn]) (auto simp: N)
  moreover have "getClicked [0, 1] nested_run 21 0 = None"
    by (rule none [OF dn(1) nn]) (simp add: N)
  moreover have "getClicked [0, 1] overdraw_run 0 0 = data ?second"
    by (rule pick [OF dv(1) no]) (auto simp: O)
  moreover have "getClicked [1, 0] overdraw_run 0 0 = data ?second"
    by (rule pick [OF dv(2) no]) (auto simp: O)
  moreover have "getClicked [1, 0] overdraw_run 1 0 = data ?first"
    by (rule pick [OF dv(2) no]) (auto simp: O)
  moreover have "\<exists>c. currentRegistered
              (swapDoubleBuffer
                 (fst (stripClickableSequencesFromFrame width_ascii
                         (fst (registerAndWrap makeClickableState ''here'' ''link-1''
                                 (Some ''DATA-1'')))
                         (''Click me '' @ snd (registerAndWrap makeClickableState ''here''
                                                ''link-1'' (Some ''DATA-1'')) @ '' please''))))
              0 = Some c
            \<and> data c = Some ''DATA-1'' \<and> sequencePosition (bounds c) = 9"
  proof -
    have v: "ValidString ''Click me ''" "ValidString ''here''" by code_simp+
    have f: "marker_free ''Click me ''" "marker_free ''here''" "marker_free '' please''"
      by code_simp+
    have i: "snd (stableId (makeClickableState :: string clickableState) ''link-1'') = 0"
      by (simp add: stableId_def makeClickableState_def)
    have l: "int (length ''Click me '') = 9" by simp
    from getClicked_topmost [OF dn(1) nn, where pre = "''Click me ''" and S = "''here''"
           and post = "'' please''" and ?cs0.0 = "makeClickableState :: string clickableState"
           and K = "''link-1''" and P = "Some ''DATA-1''" and rw = width_ascii]
         v f ids_ok_make [where ?'a = string]
    show ?thesis unfolding i l by blast
  qed
  ultimately show ?thesis by simp
qed

end
